theory Spec2Isabelle
  imports Main "HOL-Library.Word" "HOL-Library.Sublist"
begin

section \<open>Data model\<close>

text \<open>
  A Go \<open>[]byte\<close> is a list of bytes; \<open>char\<close> is the 8-bit byte, so that a byte slice is a
  \<open>string\<close>.  The \<open>nil\<close> slice and the empty slice are both \<open>[]\<close>: the program only ever
  takes \<open>len\<close> of a slice before deciding.
\<close>

type_synonym bytes = string

text \<open>
  Go \<open>error\<close> values.  \<open>None\<close> of \<open>error option\<close> is \<open>nil\<close>.  \<open>IOError\<close> is an error of the
  caller's stream, \<open>ErrorsNew\<close> an error made on the spot by \<open>errors.New\<close>.  A run-time
  panic (index out of range, \<open>panic(...)\<close>) is the value \<open>Panic\<close>.
\<close>

datatype error =
    EOF
  | ErrValueReaderMaxScanSizeLimit
  | ErrSplitterIsStarted
  | ErrSplitterIsStopped
  | IOError string
  | ErrorsNew string
  | Panic string

definition MinChunkSizeLimit :: int where
  "MinChunkSizeLimit = 16"

definition MinValueMaxScanSizeLimit :: int where
  "MinValueMaxScanSizeLimit = 4096"

subsection \<open>The underlying byte source\<close>

text \<open>
  The \<open>bufio.Reader\<close> over the caller's \<open>io.Reader\<close>: a sequential source that delivers
  the bytes of \<open>pending\<close> one at a time and then answers every further read with the
  error \<open>ending\<close> (\<open>EOF\<close> for a stream that ends cleanly).  \<open>reads\<close> counts the calls of
  \<open>ReadByte\<close>, so that a call that does not touch the source is one that leaves the
  record unchanged.
\<close>

record byteReader =
  pending :: bytes
  ending :: error
  reads :: nat

definition ReadByte :: "byteReader \<Rightarrow> (error + char) \<times> byteReader" where
  "ReadByte r =
     (case pending r of
        [] \<Rightarrow> (Inl (ending r), r\<lparr>reads := reads r + 1\<rparr>)
      | b # bs \<Rightarrow> (Inr b, r\<lparr>pending := bs, reads := reads r + 1\<rparr>))"

subsection \<open>The value reader\<close>

text \<open>
  \<open>valueReader\<close> of the source.  The rate limiter is \<open>nil\<close> for every reader made by
  \<open>NewValueReader\<close>, the only constructor \<open>RunSplit\<close> uses, and waiting is not a
  state change of the program: the field is left out.
\<close>

record valueReader =
  reader :: byteReader
  readBuffer :: bytes
  delim :: bytes
  valueMaxScanSizeLimit :: int
  scanByteNum :: int
  isEOF :: bool

definition GetScanByteNum :: "valueReader \<Rightarrow> int" where
  "GetScanByteNum v = scanByteNum v"

text \<open>
  The \<open>for\<close> loop of \<open>Next\<close>, with its locals \<open>l\<close>, \<open>delimLen\<close> and \<open>last\<close> as arguments.
  \<open>v.readBuffer[l] = b\<close> panics when \<open>l\<close> is not an index of the buffer.
\<close>

function scan :: "valueReader \<Rightarrow> nat \<Rightarrow> nat \<Rightarrow> char \<Rightarrow> (bytes \<times> error option) \<times> valueReader" where
  "scan v l delimLen last_b =
     (case ReadByte (reader v) of
        (Inl e, r) \<Rightarrow>
          (if e = EOF then ((take l (readBuffer v), None), v\<lparr>reader := r, isEOF := True\<rparr>)
           else (([], Some e), v\<lparr>reader := r\<rparr>))
      | (Inr b, r) \<Rightarrow>
          (if length (readBuffer v) \<le> l
           then (([], Some (Panic ''index out of range'')),
                 v\<lparr>reader := r, scanByteNum := scanByteNum v + 1\<rparr>)
           else
             let v' = v\<lparr>reader := r, scanByteNum := scanByteNum v + 1,
                        readBuffer := (readBuffer v)[l := b]\<rparr>;
                 l' = l + 1;
                 bs = take l' (readBuffer v')
             in if b = last_b \<and> delimLen \<le> l' \<and> drop (l' - delimLen) bs = delim v
                then ((take (l' - delimLen) bs, None), v')
                else if int l' = valueMaxScanSizeLimit v
                then ((bs, Some ErrValueReaderMaxScanSizeLimit), v')
                else scan v' l' delimLen last_b))"
  by pat_completeness auto
termination
  by (relation "measure (\<lambda>(v, l, n, c). length (pending (reader v)))")
     (auto simp: ReadByte_def split: list.splits)

definition Next :: "valueReader \<Rightarrow> (bytes \<times> error option) \<times> valueReader" where
  "Next v =
     (if isEOF v then (([], Some EOF), v)
      else if delim v = [] then (([], Some (Panic ''index out of range'')), v)
      else scan v 0 (length (delim v)) (last (delim v)))"

definition NewValueReader :: "byteReader \<Rightarrow> bytes \<Rightarrow> int \<Rightarrow> valueReader option" where
  "NewValueReader rd dl lim =
     (if dl = [] then None
      else let bufLen = max lim MinValueMaxScanSizeLimit
           in Some \<lparr>reader = rd, readBuffer = replicate (nat bufLen) (CHR 0x00), delim = dl,
                    valueMaxScanSizeLimit = bufLen, scanByteNum = 0, isEOF = False\<rparr>)"

subsection \<open>The splitter\<close>

record FlushChunkArgs =
  ChunkSn :: int
  StartValueSn :: int
  EndValueSn :: int
  ChunkData :: bytes
  ScanByteNum :: int

text \<open>
  \<open>Conf\<close> without its \<open>FlushChunkHandler\<close>: the handler is a callback of the caller, and
  what the program does with it is to call it.  The calls of both callbacks are the
  observable output of a run, recorded in order in \<open>calls\<close>: \<open>handlerCalls\<close> holds the
  argument of each call of the flush handler (the default handler or the caller's),
  \<open>filterCalls\<close> the argument of each call of the value filter.  A filter is a function
  from a value to its replacement; \<open>None\<close> is the \<open>nil\<close> filter.
\<close>

record Conf =
  Delim :: bytes
  ChunkSizeLimit :: int
  ValueMaxScanSizeLimit :: int
  ValueFilter :: "(bytes \<Rightarrow> bytes) option"

record calls =
  handlerCalls :: "FlushChunkArgs list"
  filterCalls :: "bytes list"

text \<open>
  \<open>splitter\<close> of the source.  \<open>int\<close> and \<open>int64\<close> counters are unbounded integers here
  (a counter of 64 bits does not wrap in a run that fits in memory and time); the two
  atomic \<open>int32\<close> flags are words of 32 bits, since a call suffices to change them.
\<close>

record splitter =
  chunkSizeLimit :: int
  chunkBuffer :: bytes
  chunkSn :: int
  chunkStartValueSn :: int
  nextValueSn :: int
  delimiter :: bytes
  s_valueMaxScanSizeLimit :: int
  valueFilter :: "(bytes \<Rightarrow> bytes) option"
  started :: "32 word"
  stopped :: "32 word"

text \<open>
  \<open>NewSplitter\<close> panics on an empty delimiter, and \<open>make([]byte, 0, conf.ChunkSizeLimit)\<close>
  panics on a negative capacity: both are \<open>None\<close>.
\<close>

definition NewSplitter :: "Conf \<Rightarrow> splitter option" where
  "NewSplitter conf =
     (if Delim conf = [] then None
      else if ChunkSizeLimit conf < 0 then None
      else Some \<lparr>chunkSizeLimit = max (ChunkSizeLimit conf) MinChunkSizeLimit,
                 chunkBuffer = [],
                 chunkSn = 0,
                 chunkStartValueSn = 0,
                 nextValueSn = 0,
                 delimiter = Delim conf,
                 s_valueMaxScanSizeLimit = max (ValueMaxScanSizeLimit conf) MinValueMaxScanSizeLimit,
                 valueFilter = ValueFilter conf,
                 started = 0,
                 stopped = 0\<rparr>)"

definition Stop :: "splitter \<Rightarrow> splitter" where
  "Stop s = s\<lparr>stopped := stopped s + 1\<rparr>"

text \<open>
  \<open>flushChunk\<close>: the slice expression panics when the data is shorter than the
  delimiter; otherwise the handler is called with a copy of the data without its last
  \<open>len(s.delimiter)\<close> bytes.
\<close>

definition flushChunk :: "splitter \<Rightarrow> FlushChunkArgs \<Rightarrow> calls \<Rightarrow> calls option" where
  "flushChunk s args tr =
     (if length (ChunkData args) < length (delimiter s) then None
      else let src = take (length (ChunkData args) - length (delimiter s)) (ChunkData args)
           in Some (tr\<lparr>handlerCalls := handlerCalls tr @ [args\<lparr>ChunkData := src\<rparr>]\<rparr>))"

text \<open>
  The three blocks of the loop body of \<open>RunSplit\<close>, in the order of the source.  The
  blocks that flush read the value reader only through \<open>vr.GetScanByteNum()\<close>; they take
  that number as \<open>scanned\<close>.
\<close>

definition filterValue :: "splitter \<Rightarrow> bytes \<Rightarrow> calls \<Rightarrow> bytes \<times> calls" where
  "filterValue s v tr =
     (case valueFilter s of
        Some f \<Rightarrow> (if 0 < length v then (f v, tr\<lparr>filterCalls := filterCalls tr @ [v]\<rparr>) else (v, tr))
      | None \<Rightarrow> (v, tr))"

definition appendValue ::
  "splitter \<Rightarrow> int \<Rightarrow> bytes \<Rightarrow> calls \<Rightarrow> error option \<times> splitter \<times> calls" where
  "appendValue s scanned v tr =
     (if 0 < length v then
        (if int (length (chunkBuffer s)) + int (length v) > chunkSizeLimit s
            \<and> 0 < length (chunkBuffer s)
         then
           (let sn = chunkSn s;
                s1 = s\<lparr>chunkSn := chunkSn s + 1\<rparr>
            in case flushChunk s1 \<lparr>ChunkSn = sn, StartValueSn = chunkStartValueSn s1,
                                  EndValueSn = nextValueSn s1 - 1, ChunkData = chunkBuffer s1,
                                  ScanByteNum = scanned\<rparr> tr of
                 None \<Rightarrow> (Some (Panic ''slice bounds out of range''), s1, tr)
               | Some tr1 \<Rightarrow>
                   (None,
                    s1\<lparr>chunkBuffer := v @ delimiter s1,
                       chunkStartValueSn := nextValueSn s1,
                       nextValueSn := nextValueSn s1 + 1\<rparr>,
                    tr1))
         else
           (None, s\<lparr>chunkBuffer := chunkBuffer s @ v @ delimiter s,
                     nextValueSn := nextValueSn s + 1\<rparr>, tr))
      else (None, s, tr))"

definition flushAtEOF ::
  "splitter \<Rightarrow> int \<Rightarrow> calls \<Rightarrow> error option \<times> splitter \<times> calls" where
  "flushAtEOF s scanned tr =
     (if 0 < length (chunkBuffer s) then
        (let sn = chunkSn s;
             s1 = s\<lparr>chunkSn := chunkSn s + 1\<rparr>
         in case flushChunk s1 \<lparr>ChunkSn = sn, StartValueSn = chunkStartValueSn s1,
                               EndValueSn = nextValueSn s1 - 1, ChunkData = chunkBuffer s1,
                               ScanByteNum = scanned\<rparr> tr of
              None \<Rightarrow> (Some (Panic ''slice bounds out of range''), s1, tr)
            | Some tr1 \<Rightarrow> (None, s1\<lparr>chunkBuffer := []\<rparr>, tr1))
      else (None, s, tr))"

text \<open>
  The position of a value reader in its stream: 0 once end-of-stream has been seen,
  otherwise one more than the number of bytes still to read.  It decreases with every
  call of \<open>Next\<close> that returns no error, which is why the loop of \<open>RunSplit\<close> ends on
  every stream of this model.
\<close>

definition remaining :: "valueReader \<Rightarrow> nat" where
  "remaining v = (if isEOF v then 0 else Suc (length (pending (reader v))))"

declare scan.simps [simp del]

lemma scan_remaining:
  "scan v l n c = ((x, None), v') \<Longrightarrow> \<not> isEOF v \<Longrightarrow> remaining v' < remaining v"
proof (induction v l n c rule: scan.induct)
  case (1 v l delimLen last_b)
  show ?case
  proof (cases "pending (reader v)")
    case Nil
    with "1.prems" show ?thesis
      by (subst (asm) scan.simps) (auto simp: ReadByte_def remaining_def split: if_splits)
  next
    case (Cons b bs)
    let ?r = "(reader v)\<lparr>pending := bs, reads := reads (reader v) + 1\<rparr>"
    let ?v' = "v\<lparr>reader := ?r, scanByteNum := scanByteNum v + 1,
                  readBuffer := (readBuffer v)[l := b]\<rparr>"
    have rb: "ReadByte (reader v) = (Inr b, ?r)"
      using Cons by (simp add: ReadByte_def)
    have step: "remaining ?v' < remaining v"
      using Cons "1.prems" by (simp add: remaining_def)
    from "1.prems"(1) rb
    consider (finished) "remaining v' = remaining ?v'"
      | (again) "\<not> length (readBuffer v) \<le> l"
          "\<not> (b = last_b \<and> delimLen \<le> l + 1
               \<and> drop (l + 1 - delimLen) (take (l + 1) (readBuffer ?v')) = delim v)"
          "int (l + 1) \<noteq> valueMaxScanSizeLimit v"
          "scan ?v' (l + 1) delimLen last_b = ((x, None), v')"
      by (subst (asm) scan.simps) (auto simp: Let_def remaining_def split: if_splits)
    then show ?thesis
    proof cases
      case finished
      with step show ?thesis by simp
    next
      case again
      have "remaining v' < remaining ?v'"
        by (rule "1.IH" [OF rb [symmetric] refl again(1) refl refl refl again(2) again(3) again(4)])
           (use "1.prems" in simp)
      with step show ?thesis by simp
    qed
  qed
qed

lemma Next_remaining:
  "((x, None), v') = Next v \<Longrightarrow> remaining v' < remaining v"
  by (auto simp: Next_def split: if_splits dest: scan_remaining [OF sym])

function loop ::
  "splitter \<Rightarrow> valueReader \<Rightarrow> calls \<Rightarrow> error option \<times> splitter \<times> valueReader \<times> calls" where
  "loop s vr tr =
     (if 0 <s stopped s then (Some ErrSplitterIsStopped, s, vr, tr)
      else
        case Next vr of ((v, err), vr1) \<Rightarrow>
          if err \<noteq> None \<and> err \<noteq> Some EOF then (err, s, vr1, tr)
          else
            case filterValue s v tr of (v1, tr1) \<Rightarrow>
              case appendValue s (GetScanByteNum vr1) v1 tr1 of
                (Some e, s2, tr2) \<Rightarrow> (Some e, s2, vr1, tr2)
              | (None, s2, tr2) \<Rightarrow>
                  if err = Some EOF then
                    (case flushAtEOF s2 (GetScanByteNum vr1) tr2 of (e3, s3, tr3) \<Rightarrow> (e3, s3, vr1, tr3))
                  else loop s2 vr1 tr2)"
  by pat_completeness auto
termination
  by (relation "measure (\<lambda>(s, vr, tr). remaining vr)") (auto dest: Next_remaining)

declare loop.simps [simp del]

text \<open>
  \<open>RunSplit\<close>.  \<open>atomic.AddInt32(&s.started, 1)\<close> is one step: the flag is incremented and
  its new value compared with 1.  The value reader is a local of the call; what the
  caller can see afterwards is the returned error, the splitter, the reader it passed
  in, and the calls made to its callbacks.
\<close>

definition RunSplit ::
  "splitter \<Rightarrow> byteReader \<Rightarrow> error option \<times> splitter \<times> byteReader \<times> calls" where
  "RunSplit s rd =
     (let s1 = s\<lparr>started := started s + 1\<rparr>;
          tr0 = \<lparr>handlerCalls = [], filterCalls = []\<rparr>
      in if started s1 \<noteq> 1 then (Some ErrSplitterIsStarted, s1, rd, tr0)
         else
           case NewValueReader rd (delimiter s1) (s_valueMaxScanSizeLimit s1) of
             None \<Rightarrow> (Some (Panic ''delim must not be empty''), s1, rd, tr0)
           | Some vr \<Rightarrow>
               (case loop s1 vr tr0 of (err, s2, vr2, tr2) \<Rightarrow> (err, s2, reader vr2, tr2)))"

subsection \<open>The earlier versions of the splitter\<close>

text \<open>
  \<open>src/splitter.go\<close> keeps two earlier versions of the package.  The first is the one
  whose configuration sets the number of the first chunk, \<open>StartChunkSn\<close>; it is modelled
  here as it is written.  Its names that are also names of the latest version carry
  the suffix 1.  The handler of this version takes the chunk number, the indexes of the
  first and the last value and the data as four arguments: a call is a tuple of the
  four.
\<close>

record Conf1 = Conf +
  StartChunkSn :: int

record calls1 =
  handlerCalls1 :: "(int \<times> int \<times> int \<times> bytes) list"
  filterCalls1 :: "bytes list"

text \<open>
  The values are counted by \<open>dataValueIndex\<close>, the index of the last accepted value, which
  starts at -1; \<open>chunkStartIndex\<close> is the index of the first value of the buffer.
\<close>

record splitter1 =
  chunkSizeLimit1 :: int
  chunkBuffer1 :: bytes
  chunkSn1 :: int
  chunkStartIndex :: int
  dataValueIndex :: int
  delimiter1 :: bytes
  valueMaxScanSizeLimit1 :: int
  valueFilter1 :: "(bytes \<Rightarrow> bytes) option"
  started1 :: "32 word"
  stopped1 :: "32 word"

definition NewSplitter1 :: "Conf1 \<Rightarrow> splitter1 option" where
  "NewSplitter1 conf =
     (if Delim conf = [] then None
      else if ChunkSizeLimit conf < 0 then None
      else Some \<lparr>chunkSizeLimit1 = max (ChunkSizeLimit conf) MinChunkSizeLimit,
                 chunkBuffer1 = [],
                 chunkSn1 = StartChunkSn conf,
                 chunkStartIndex = 0,
                 dataValueIndex = - 1,
                 delimiter1 = Delim conf,
                 valueMaxScanSizeLimit1 = max (ValueMaxScanSizeLimit conf) MinValueMaxScanSizeLimit,
                 valueFilter1 = ValueFilter conf,
                 started1 = 0,
                 stopped1 = 0\<rparr>)"

definition Stop1 :: "splitter1 \<Rightarrow> splitter1" where
  "Stop1 s = s\<lparr>stopped1 := stopped1 s + 1\<rparr>"

text \<open>
  \<open>flushChunk\<close> and the three blocks of the loop body of \<open>Split\<close>.  Nothing in this
  version reads the number of scanned bytes.
\<close>

definition flushChunk1 ::
  "splitter1 \<Rightarrow> int \<Rightarrow> int \<Rightarrow> int \<Rightarrow> bytes \<Rightarrow> calls1 \<Rightarrow> calls1 option" where
  "flushChunk1 s sn startIdx endIdx data tr =
     (if length data < length (delimiter1 s) then None
      else let src = take (length data - length (delimiter1 s)) data
           in Some (tr\<lparr>handlerCalls1 := handlerCalls1 tr @ [(sn, startIdx, endIdx, src)]\<rparr>))"

definition filterValue1 :: "splitter1 \<Rightarrow> bytes \<Rightarrow> calls1 \<Rightarrow> bytes \<times> calls1" where
  "filterValue1 s v tr =
     (case valueFilter1 s of
        Some f \<Rightarrow> (if 0 < length v then (f v, tr\<lparr>filterCalls1 := filterCalls1 tr @ [v]\<rparr>) else (v, tr))
      | None \<Rightarrow> (v, tr))"

definition appendValue1 ::
  "splitter1 \<Rightarrow> bytes \<Rightarrow> calls1 \<Rightarrow> error option \<times> splitter1 \<times> calls1" where
  "appendValue1 s v tr =
     (if 0 < length v then
        (if int (length (chunkBuffer1 s)) + int (length v) > chunkSizeLimit1 s
            \<and> 0 < length (chunkBuffer1 s)
         then
           (let sn = chunkSn1 s;
                s1 = s\<lparr>chunkSn1 := chunkSn1 s + 1\<rparr>
            in case flushChunk1 s1 sn (chunkStartIndex s1) (dataValueIndex s1) (chunkBuffer1 s1) tr of
                 None \<Rightarrow> (Some (Panic ''slice bounds out of range''), s1, tr)
               | Some tr1 \<Rightarrow>
                   (None,
                    s1\<lparr>chunkBuffer1 := v @ delimiter1 s1,
                       chunkStartIndex := dataValueIndex s1 + 1,
                       dataValueIndex := dataValueIndex s1 + 1\<rparr>,
                    tr1))
         else
           (None, s\<lparr>chunkBuffer1 := chunkBuffer1 s @ v @ delimiter1 s,
                     dataValueIndex := dataValueIndex s + 1\<rparr>, tr))
      else (None, s, tr))"

definition flushAtEOF1 :: "splitter1 \<Rightarrow> calls1 \<Rightarrow> error option \<times> splitter1 \<times> calls1" where
  "flushAtEOF1 s tr =
     (if 0 < length (chunkBuffer1 s) then
        (let sn = chunkSn1 s;
             s1 = s\<lparr>chunkSn1 := chunkSn1 s + 1\<rparr>
         in case flushChunk1 s1 sn (chunkStartIndex s1) (dataValueIndex s1) (chunkBuffer1 s1) tr of
              None \<Rightarrow> (Some (Panic ''slice bounds out of range''), s1, tr)
            | Some tr1 \<Rightarrow> (None, s1\<lparr>chunkBuffer1 := []\<rparr>, tr1))
      else (None, s, tr))"

text \<open>
  The loop of \<open>Split\<close> over the value reader of above.  A stop request ends it with \<open>nil\<close>.
\<close>

function loop1 ::
  "splitter1 \<Rightarrow> valueReader \<Rightarrow> calls1 \<Rightarrow> error option \<times> splitter1 \<times> valueReader \<times> calls1" where
  "loop1 s vr tr =
     (if 0 <s stopped1 s then (None, s, vr, tr)
      else
        case Next vr of ((v, err), vr1) \<Rightarrow>
          if err \<noteq> None \<and> err \<noteq> Some EOF then (err, s, vr1, tr)
          else
            case filterValue1 s v tr of (v1, tr1) \<Rightarrow>
              case appendValue1 s v1 tr1 of
                (Some e, s2, tr2) \<Rightarrow> (Some e, s2, vr1, tr2)
              | (None, s2, tr2) \<Rightarrow>
                  if err = Some EOF then
                    (case flushAtEOF1 s2 tr2 of (e3, s3, tr3) \<Rightarrow> (e3, s3, vr1, tr3))
                  else loop1 s2 vr1 tr2)"
  by pat_completeness auto
termination
  by (relation "measure (\<lambda>(s, vr, tr). remaining vr)") (auto dest: Next_remaining)

declare loop1.simps [simp del]

text \<open>
  \<open>Split\<close>.  A repeated call returns an error made by \<open>errors.New\<close>.
\<close>

definition Split ::
  "splitter1 \<Rightarrow> byteReader \<Rightarrow> error option \<times> splitter1 \<times> byteReader \<times> calls1" where
  "Split s rd =
     (let s1 = s\<lparr>started1 := started1 s + 1\<rparr>;
          tr0 = \<lparr>handlerCalls1 = [], filterCalls1 = []\<rparr>
      in if started1 s1 \<noteq> 1 then (Some (ErrorsNew ''Repeat Call Split''), s1, rd, tr0)
         else
           case NewValueReader rd (delimiter1 s1) (valueMaxScanSizeLimit1 s1) of
             None \<Rightarrow> (Some (Panic ''delim must not be empty''), s1, rd, tr0)
           | Some vr \<Rightarrow>
               (case loop1 s1 vr tr0 of (err, s2, vr2, tr2) \<Rightarrow> (err, s2, reader vr2, tr2)))"

text \<open>
  The second version of \<open>src/splitter.go\<close> is the latest one under other names (\<open>Split\<close>,
  \<open>Data\<close>, \<open>StartDataSn\<close>, \<open>EndDataSn\<close>, and \<open>nowDataValueSn\<close> counted from -1) but for its
  \<open>flushChunk\<close>: it makes the copy \<open>bs\<close> of the data without the last delimiter and then
  calls the handler with the arguments it was given, whose data is still the whole
  buffer.  With the fields of \<open>FlushChunkArgs\<close> under their latest names:
\<close>

definition flushChunk2 :: "splitter \<Rightarrow> FlushChunkArgs \<Rightarrow> calls \<Rightarrow> calls option" where
  "flushChunk2 s args tr =
     (if length (ChunkData args) < length (delimiter s) then None
      else Some (tr\<lparr>handlerCalls := handlerCalls tr @ [args]\<rparr>))"

subsection \<open>A pure view of the scan\<close>

text \<open>
  What one call of \<open>Next\<close> does to the bytes still to read, without the buffer: the bytes
  are taken one by one onto \<open>acc\<close> until \<open>acc\<close> ends with the delimiter (\<open>Found\<close>: the
  value and the bytes left), until \<open>acc\<close> has \<open>lim\<close> bytes (\<open>TooLong\<close>), or until no byte is
  left (\<open>AtEnd\<close>).  The lemma \<open>scan_scanBytes\<close> below shows that \<open>scan\<close> computes this.
\<close>

datatype scanned = Found bytes bytes | AtEnd bytes | TooLong bytes bytes

fun scanBytes :: "bytes \<Rightarrow> nat \<Rightarrow> bytes \<Rightarrow> bytes \<Rightarrow> scanned" where
  "scanBytes d lim acc [] = AtEnd acc"
| "scanBytes d lim acc (b # bs) =
     (if suffix d (acc @ [b]) then Found (take (Suc (length acc) - length d) (acc @ [b])) bs
      else if Suc (length acc) = lim then TooLong (acc @ [b]) bs
      else scanBytes d lim (acc @ [b]) bs)"

definition scanned_to :: "valueReader \<Rightarrow> bytes \<Rightarrow> nat \<Rightarrow> bytes \<Rightarrow> valueReader" where
  "scanned_to v rest n buf =
     v\<lparr>reader := (reader v)\<lparr>pending := rest, reads := reads (reader v) + n\<rparr>,
       scanByteNum := scanByteNum v + int (length (pending (reader v)) - length rest),
       readBuffer := buf\<rparr>"

text \<open>
  A value reader as its constructor makes it: a delimiter, and a buffer of as many
  bytes as the scan limit.
\<close>

definition vr_ok :: "valueReader \<Rightarrow> bool" where
  "vr_ok v \<longleftrightarrow>
     delim v \<noteq> [] \<and> readBuffer v \<noteq> []
     \<and> valueMaxScanSizeLimit v = int (length (readBuffer v))"

subsection \<open>Chunks and the values they hold\<close>

text \<open>
  \<open>join d vs\<close> is the values \<open>vs\<close> with the delimiter between them, the payload of a chunk;
  \<open>terminated d vs\<close> is the values each followed by the delimiter, the content of the
  chunk buffer.
\<close>

fun join :: "bytes \<Rightarrow> bytes list \<Rightarrow> bytes" where
  "join d [] = []"
| "join d [v] = v"
| "join d (v # w # vs) = v @ d @ join d (w # vs)"

definition terminated :: "bytes \<Rightarrow> bytes list \<Rightarrow> bytes" where
  "terminated d vs = concat (map (\<lambda>v. v @ d) vs)"

text \<open>
  The buffer of \<open>s\<close> holds the values \<open>vs\<close>: they are the values numbered from
  \<open>chunkStartValueSn\<close> up to \<open>nextValueSn\<close>, and none is empty.
\<close>

definition buffered :: "splitter \<Rightarrow> bytes list \<Rightarrow> bool" where
  "buffered s vs \<longleftrightarrow>
     chunkBuffer s = terminated (delimiter s) vs \<and> [] \<notin> set vs
     \<and> int (length vs) = nextValueSn s - chunkStartValueSn s"

text \<open>
  The chunk \<open>c\<close> holds the values \<open>vs\<close>: at least one, none empty, as many as its range of
  sequence numbers, and its payload is these values with the delimiter between them.
\<close>

definition chunk_of :: "bytes \<Rightarrow> bytes list \<Rightarrow> FlushChunkArgs \<Rightarrow> bool" where
  "chunk_of d vs c \<longleftrightarrow>
     vs \<noteq> [] \<and> [] \<notin> set vs \<and> ChunkData c = join d vs
     \<and> int (length vs) = EndValueSn c - StartValueSn c + 1"

text \<open>
  Chunks numbered from \<open>c\<close>, holding the values numbered from \<open>v\<close>, without a gap.
\<close>

fun contiguous :: "int \<Rightarrow> int \<Rightarrow> FlushChunkArgs list \<Rightarrow> bool" where
  "contiguous c v [] = True"
| "contiguous c v (x # xs) =
     (ChunkSn x = c \<and> StartValueSn x = v \<and> StartValueSn x \<le> EndValueSn x
      \<and> contiguous (c + 1) (EndValueSn x + 1) xs)"

definition sound_chunk :: "bytes \<Rightarrow> int \<Rightarrow> FlushChunkArgs \<Rightarrow> bool" where
  "sound_chunk d lim c \<longleftrightarrow>
     (\<exists>vs. chunk_of d vs c \<and> (int (length (ChunkData c)) \<le> lim \<or> length vs = 1))"

text \<open>
  The invariant of the loop of \<open>RunSplit\<close>, for a run whose first chunk has the number
  \<open>c0\<close>, that has accepted the values \<open>acc\<close> and flushed the chunks \<open>cs\<close> so far: the chunks
  hold, in order, the accepted values that are not in the buffer any more.
\<close>

definition run_inv :: "int \<Rightarrow> bytes list \<Rightarrow> splitter \<Rightarrow> FlushChunkArgs list \<Rightarrow> bool" where
  "run_inv c0 acc s cs \<longleftrightarrow>
     (\<exists>vss vs. concat vss @ vs = acc \<and> list_all2 (chunk_of (delimiter s)) vss cs
        \<and> buffered s vs
        \<and> (length vs \<le> 1 \<or> int (length (join (delimiter s) vs)) \<le> chunkSizeLimit s))
     \<and> contiguous c0 0 cs
     \<and> chunkSn s = c0 + int (length cs)
     \<and> chunkStartValueSn s = (if cs = [] then 0 else EndValueSn (last cs) + 1)
     \<and> (\<forall>c \<in> set cs. sound_chunk (delimiter s) (chunkSizeLimit s) c)"

definition emitted_ok :: "int \<Rightarrow> bytes \<Rightarrow> int \<Rightarrow> FlushChunkArgs list \<Rightarrow> bool" where
  "emitted_ok c0 d lim cs \<longleftrightarrow> contiguous c0 0 cs \<and> (\<forall>c \<in> set cs. sound_chunk d lim c)"

text \<open>The chunks \<open>cs\<close> hold, in order, exactly the values \<open>acc\<close>.\<close>

definition covered :: "bytes \<Rightarrow> bytes list \<Rightarrow> FlushChunkArgs list \<Rightarrow> bool" where
  "covered d acc cs \<longleftrightarrow> (\<exists>vss. concat vss = acc \<and> list_all2 (chunk_of d) vss cs)"


subsection \<open>The values of a stream\<close>

text \<open>
  The values of a stream as the specification describes them: the byte sequences
  between two occurrences of the delimiter, or between the start of the stream or the
  previous delimiter and the end of the stream.  Reading from the left, a value ends
  at the first point where the bytes read since the previous value end with the
  delimiter.  \<open>split_values d data\<close> is never empty: its last element is what follows the
  last delimiter, possibly nothing.
\<close>

fun values_from :: "bytes \<Rightarrow> bytes \<Rightarrow> bytes \<Rightarrow> bytes list" where
  "values_from d acc [] = [acc]"
| "values_from d acc (b # bs) =
     (if suffix d (acc @ [b])
      then take (Suc (length acc) - length d) (acc @ [b]) # values_from d [] bs
      else values_from d (acc @ [b]) bs)"

definition split_values :: "bytes \<Rightarrow> bytes \<Rightarrow> bytes list" where
  "split_values d data = values_from d [] data"

text \<open>
  The accepted values, in the specification's words: a value that is empty is dropped;
  a filter, when there is one, replaces a value, and an empty replacement rejects it.
\<close>

definition accepted :: "(bytes \<Rightarrow> bytes) option \<Rightarrow> bytes list \<Rightarrow> bytes list" where
  "accepted flt vs =
     filter (\<lambda>v. v \<noteq> [])
       (map (case flt of None \<Rightarrow> (\<lambda>v. v) | Some f \<Rightarrow> f) (filter (\<lambda>v. v \<noteq> []) vs))"

text \<open>
  Every value can be scanned with the limit \<open>lim\<close>: a value and its delimiter have at
  most \<open>lim\<close> bytes, and the last value, which has no delimiter, has fewer.
\<close>

fun fits :: "nat \<Rightarrow> bytes \<Rightarrow> bytes list \<Rightarrow> bool" where
  "fits lim d [] = True"
| "fits lim d [v] = (length v < lim)"
| "fits lim d (v # w # vs) = (length v + length d \<le> lim \<and> fits lim d (w # vs))"

text \<open>
  The iterations of the loop of \<open>RunSplit\<close> over the values \<open>vs\<close> of a stream that ends
  cleanly, the last of them ended by the end of the stream: each value goes through the
  filter and into the buffer, with the number of bytes scanned so far, and the
  iteration after the last value flushes what is left.  The lemma \<open>loop_feed\<close> below shows
  that the loop computes this.
\<close>

fun feed :: "splitter \<Rightarrow> int \<Rightarrow> bytes list \<Rightarrow> calls \<Rightarrow> error option \<times> splitter \<times> calls" where
  "feed s n [] tr = flushAtEOF s n tr"
| "feed s n (v # vs) tr =
     (let n' = n + int (length v) + (if vs = [] then 0 else int (length (delimiter s)))
      in case filterValue s v tr of (v1, tr1) \<Rightarrow>
           case appendValue s n' v1 tr1 of
             (Some e, s2, tr2) \<Rightarrow> (Some e, s2, tr2)
           | (None, s2, tr2) \<Rightarrow> feed s2 n' vs tr2)"

subsection \<open>The first version seen from the latest\<close>






subsection \<open>Example inputs\<close>

text \<open>The configuration of the example of the repository, without its filter.\<close>

definition example_conf :: Conf where
  "example_conf =
     \<lparr>Delim = '','', ChunkSizeLimit = 16, ValueMaxScanSizeLimit = 0, ValueFilter = None\<rparr>"

definition example_splitter :: splitter where
  "example_splitter =
     \<lparr>chunkSizeLimit = 16, chunkBuffer = [], chunkSn = 0, chunkStartValueSn = 0,
      nextValueSn = 0, delimiter = '','', s_valueMaxScanSizeLimit = 4096, valueFilter = None,
      started = 0, stopped = 0\<rparr>"

definition stream_of :: "bytes \<Rightarrow> byteReader" where
  "stream_of bs = \<lparr>pending = bs, ending = EOF, reads = 0\<rparr>"

definition no_calls :: calls where
  "no_calls = \<lparr>handlerCalls = [], filterCalls = []\<rparr>"

text \<open>The value reader that \<open>NewValueReader\<close> makes for the stream \<open>ab\<close> and the delimiter \<open>,\<close>.\<close>

definition example_reader :: valueReader where
  "example_reader =
     \<lparr>reader = stream_of ''ab'', readBuffer = replicate 4096 (CHR 0x00), delim = '','',
      valueMaxScanSizeLimit = 4096, scanByteNum = 0, isEOF = False\<rparr>"

text \<open>
  The example of the repository: the stream \<open>apple,banana,pear,peach,cherry\<close>, the limit
  16 and a filter that drops \<open>banana\<close>.
\<close>

definition drop_banana :: "bytes \<Rightarrow> bytes" where
  "drop_banana v = (if v = ''banana'' then [] else v)"

definition fruit_conf :: Conf where
  "fruit_conf =
     \<lparr>Delim = '','', ChunkSizeLimit = 16, ValueMaxScanSizeLimit = 0,
      ValueFilter = Some drop_banana\<rparr>"

definition fruit_start :: splitter where
  "fruit_start = example_splitter\<lparr>valueFilter := Some drop_banana\<rparr>"

definition fruit_stream :: byteReader where
  "fruit_stream = stream_of ''apple,banana,pear,peach,cherry''"

definition fruit_chunks :: "int \<Rightarrow> FlushChunkArgs list" where
  "fruit_chunks c0 =
     [\<lparr>ChunkSn = c0, StartValueSn = 0, EndValueSn = 2, ChunkData = ''apple,pear,peach'',
       ScanByteNum = 30\<rparr>,
      \<lparr>ChunkSn = c0 + 1, StartValueSn = 3, EndValueSn = 3, ChunkData = ''cherry'',
       ScanByteNum = 30\<rparr>]"





definition long_value :: bytes where
  "long_value = ''abcdefghijklmnopqrstuvwxyz0123''"

text \<open>
  Two small value readers, one about to read an empty value and one about to read
  \<open>banana\<close>, and the readers they become; and a stream with an empty value between two
  delimiters and another after the last delimiter.
\<close>

definition empty_first :: valueReader where
  "empty_first =
     \<lparr>reader = stream_of '',b'', readBuffer = replicate 4 (CHR 0x00), delim = '','',
      valueMaxScanSizeLimit = 4, scanByteNum = 0, isEOF = False\<rparr>"

definition empty_first_read :: valueReader where
  "empty_first_read =
     \<lparr>reader = \<lparr>pending = ''b'', ending = EOF, reads = 1\<rparr>,
      readBuffer = CHR '','' # replicate 3 (CHR 0x00), delim = '','',
      valueMaxScanSizeLimit = 4, scanByteNum = 1, isEOF = False\<rparr>"

definition banana_first :: valueReader where
  "banana_first =
     \<lparr>reader = stream_of ''banana,'', readBuffer = replicate 8 (CHR 0x00), delim = '','',
      valueMaxScanSizeLimit = 8, scanByteNum = 0, isEOF = False\<rparr>"

definition banana_first_read :: valueReader where
  "banana_first_read =
     \<lparr>reader = \<lparr>pending = [], ending = EOF, reads = 7\<rparr>,
      readBuffer = ''banana,'' @ [CHR 0x00], delim = '','',
      valueMaxScanSizeLimit = 8, scanByteNum = 7, isEOF = False\<rparr>"

definition gappy_stream :: byteReader where
  "gappy_stream = stream_of ''apple,,banana,pear,''"

text \<open>The value \<open>a\<close>, then 4096 bytes without a delimiter: as many as the scan limit.\<close>

definition too_long_stream :: byteReader where
  "too_long_stream = stream_of (''a,'' @ replicate 4096 (CHR ''x''))"

text \<open>
  The splitter of the example after the values \<open>apple\<close> and \<open>pear\<close>: eleven bytes in the
  buffer, limit 16.
\<close>

definition fruit_splitter :: splitter where
  "fruit_splitter = example_splitter\<lparr>chunkBuffer := ''apple,pear,'', nextValueSn := 2, started := 1\<rparr>"

section \<open>Properties of the value reader\<close>

lemma scanned_to_simps [simp]:
  "readBuffer (scanned_to v rest n buf) = buf"
  "delim (scanned_to v rest n buf) = delim v"
  "valueMaxScanSizeLimit (scanned_to v rest n buf) = valueMaxScanSizeLimit v"
  "isEOF (scanned_to v rest n buf) = isEOF v"
  "pending (reader (scanned_to v rest n buf)) = rest"
  "ending (reader (scanned_to v rest n buf)) = ending (reader v)"
  "reads (reader (scanned_to v rest n buf)) = reads (reader v) + n"
  "scanByteNum (scanned_to v rest n buf) =
     scanByteNum v + int (length (pending (reader v)) - length rest)"
  by (simp_all add: scanned_to_def)

lemma scanBytes_step:
  "scanBytes d lim acc (b # bs) = r \<Longrightarrow>
     (suffix d (acc @ [b]) \<and> r = Found (take (Suc (length acc) - length d) (acc @ [b])) bs)
   \<or> (\<not> suffix d (acc @ [b]) \<and> Suc (length acc) = lim \<and> r = TooLong (acc @ [b]) bs)
   \<or> (\<not> suffix d (acc @ [b]) \<and> Suc (length acc) \<noteq> lim \<and> r = scanBytes d lim (acc @ [b]) bs)"
  by (cases "suffix d (acc @ [b])"; cases "Suc (length acc) = lim")
     (simp_all del: suffix_snoc)

lemma suffix_take:
  assumes "suffix d ys"
  shows "take (length ys - length d) ys @ d = ys"
proof -
  from assms obtain p where "ys = p @ d" by (auto simp only: suffix_def)
  then show ?thesis by simp
qed

lemma scanBytes_Found:
  "scanBytes d lim acc data = Found x rest \<Longrightarrow> \<exists>pre. data = pre @ rest \<and> acc @ pre = x @ d"
proof (induction data arbitrary: acc)
  case Nil
  then show ?case by simp
next
  case (Cons b bs)
  from scanBytes_step [OF Cons.prems]
  consider (hit) "suffix d (acc @ [b])" "x = take (Suc (length acc) - length d) (acc @ [b])" "rest = bs"
    | (rec) "scanBytes d lim (acc @ [b]) bs = Found x rest"
    by auto
  then show ?case
  proof cases
    case hit
    from suffix_take [OF hit(1)] hit(2) have "acc @ [b] = x @ d" by simp
    with hit(3) show ?thesis by (intro exI [of _ "[b]"]) simp
  next
    case rec
    from Cons.IH [OF rec] obtain pre where "bs = pre @ rest" "(acc @ [b]) @ pre = x @ d"
      by blast
    then show ?thesis by (intro exI [of _ "b # pre"]) simp
  qed
qed

lemma scanBytes_TooLong:
  "scanBytes d lim acc data = TooLong x rest \<Longrightarrow>
     \<exists>pre. data = pre @ rest \<and> acc @ pre = x \<and> length x = lim"
proof (induction data arbitrary: acc)
  case Nil
  then show ?case by simp
next
  case (Cons b bs)
  from scanBytes_step [OF Cons.prems]
  consider (hit) "Suc (length acc) = lim" "x = acc @ [b]" "rest = bs"
    | (rec) "scanBytes d lim (acc @ [b]) bs = TooLong x rest"
    by auto
  then show ?case
  proof cases
    case hit
    then show ?thesis by (intro exI [of _ "[b]"]) auto
  next
    case rec
    from Cons.IH [OF rec] obtain pre
      where "bs = pre @ rest" "(acc @ [b]) @ pre = x" "length x = lim"
      by blast
    then show ?thesis by (intro exI [of _ "b # pre"]) simp
  qed
qed

lemma scanBytes_AtEnd:
  "scanBytes d lim acc data = AtEnd x \<Longrightarrow> x = acc @ data"
proof (induction data arbitrary: acc)
  case Nil
  then show ?case by simp
next
  case (Cons b bs)
  from scanBytes_step [OF Cons.prems] have "scanBytes d lim (acc @ [b]) bs = AtEnd x"
    by auto
  from Cons.IH [OF this] show ?case by simp
qed

lemma tail_is_delim:
  "d \<noteq> [] \<Longrightarrow>
   (b = last d \<and> length d \<le> Suc (length xs) \<and> drop (Suc (length xs) - length d) (xs @ [b]) = d)
     = suffix d (xs @ [b])"
proof
  assume d: "d \<noteq> []" and "suffix d (xs @ [b])"
  then obtain p where p: "xs @ [b] = p @ d" by (auto simp: suffix_def)
  with d have "last d = b" by (metis last_appendR last_snoc)
  moreover from p have "length d \<le> Suc (length xs)"
    by (metis length_append_singleton length_append le_add2)
  moreover from p have "drop (Suc (length xs) - length d) (xs @ [b]) = d"
    by (metis append_eq_conv_conj length_append_singleton length_append diff_add_inverse2)
  ultimately show "b = last d \<and> length d \<le> Suc (length xs) \<and> drop (Suc (length xs) - length d) (xs @ [b]) = d"
    by simp
next
  assume "d \<noteq> []" and "b = last d \<and> length d \<le> Suc (length xs) \<and> drop (Suc (length xs) - length d) (xs @ [b]) = d"
  then show "suffix d (xs @ [b])"
    by (metis suffix_drop)
qed

lemma scan_scanBytes:
  assumes "data = pending (reader v)" "readBuffer v = acc @ junk" "junk \<noteq> []" "delim v = d" "d \<noteq> []"
    "valueMaxScanSizeLimit v = int (length (readBuffer v))"
  shows "\<exists>buf. length buf = length (readBuffer v) \<and>
     scan v (length acc) (length d) (last d) =
       (case scanBytes d (length (readBuffer v)) acc data of
          Found x rest \<Rightarrow>
            ((x, None), scanned_to v rest (length data - length rest) buf)
        | TooLong x rest \<Rightarrow>
            ((x, Some ErrValueReaderMaxScanSizeLimit),
             scanned_to v rest (length data - length rest) buf)
        | AtEnd x \<Rightarrow>
            (if ending (reader v) = EOF
             then ((x, None), (scanned_to v [] (Suc (length data)) buf)\<lparr>isEOF := True\<rparr>)
             else (([], Some (ending (reader v))), scanned_to v [] (Suc (length data)) buf)))"
  using assms
proof (induction data arbitrary: v acc junk)
  case Nil
  then have "ReadByte (reader v) = (Inl (ending (reader v)), (reader v)\<lparr>reads := reads (reader v) + 1\<rparr>)"
    by (simp add: ReadByte_def)
  with Nil show ?case
    by (intro exI [of _ "readBuffer v"]) (subst scan.simps, simp add: scanned_to_def)
next
  case (Cons b bs)
  let ?r = "(reader v)\<lparr>pending := bs, reads := reads (reader v) + 1\<rparr>"
  let ?v' = "v\<lparr>reader := ?r, scanByteNum := scanByteNum v + 1,
                readBuffer := (readBuffer v)[length acc := b]\<rparr>"
  from Cons.prems obtain j js where junk: "junk = j # js" by (cases junk) auto
  have rb: "ReadByte (reader v) = (Inr b, ?r)"
    using Cons.prems(1) [symmetric] by (simp add: ReadByte_def)
  have buf': "readBuffer ?v' = (acc @ [b]) @ js"
    using Cons.prems junk by simp
  have tk: "take (Suc (length acc)) (readBuffer ?v') = acc @ [b]"
    using buf' by simp
  have inb: "\<not> length (readBuffer v) \<le> length acc"
    using Cons.prems junk by simp
  define m where "m \<longleftrightarrow> suffix d (acc @ [b])"
  define x0 where "x0 = take (Suc (length acc) - length d) (acc @ [b])"
  have cond: "(b = last d \<and> length d \<le> Suc (length acc)
               \<and> drop (Suc (length acc) - length d) (acc @ [b]) = d) = m"
    unfolding m_def by (rule tail_is_delim [OF Cons.prems(5)])
  have unf: "scan v (length acc) (length d) (last d) =
      (if m then ((x0, None), ?v')
       else if int (Suc (length acc)) = valueMaxScanSizeLimit v
       then ((acc @ [b], Some ErrValueReaderMaxScanSizeLimit), ?v')
       else scan ?v' (Suc (length acc)) (length d) (last d))"
    using rb inb tk cond Cons.prems(4) x0_def [symmetric]
    by (subst scan.simps) (simp add: Let_def)
  have sb: "scanBytes d (length (readBuffer v)) acc (b # bs) =
      (if m then Found x0 bs
       else if Suc (length acc) = length (readBuffer v) then TooLong (acc @ [b]) bs
       else scanBytes d (length (readBuffer v)) (acc @ [b]) bs)"
    by (simp only: scanBytes.simps m_def x0_def)
  have v'_as: "?v' = scanned_to v bs (length (b # bs) - length bs) (readBuffer ?v')"
    using Cons.prems(1) [symmetric] by (simp add: scanned_to_def)
  show ?case
  proof (cases m)
    case True
    with unf sb v'_as show ?thesis
      by (intro exI [of _ "(readBuffer v)[length acc := b]"]) (simp del: scanBytes.simps)
  next
    case nosuf: False
    show ?thesis
    proof (cases "Suc (length acc) = length (readBuffer v)")
      case True
      with unf sb nosuf v'_as Cons.prems(6) show ?thesis
        by (intro exI [of _ "(readBuffer v)[length acc := b]"]) (simp del: scanBytes.simps)
    next
      case False
      with Cons.prems(2) junk have js: "js \<noteq> []" by auto
      from False Cons.prems(6) have ne: "int (Suc (length acc)) \<noteq> valueMaxScanSizeLimit v" by simp
      have e1: "length (readBuffer ?v') = length (readBuffer v)" by simp
      have e2: "length (acc @ [b]) = Suc (length acc)" by simp
      have e3: "ending (reader ?v') = ending (reader v)" by simp
      have "\<exists>buf. length buf = length (readBuffer ?v') \<and>
        scan ?v' (length (acc @ [b])) (length d) (last d) =
         (case scanBytes d (length (readBuffer ?v')) (acc @ [b]) bs of
            Found x rest \<Rightarrow> ((x, None), scanned_to ?v' rest (length bs - length rest) buf)
          | TooLong x rest \<Rightarrow> ((x, Some ErrValueReaderMaxScanSizeLimit),
               scanned_to ?v' rest (length bs - length rest) buf)
          | AtEnd x \<Rightarrow>
              (if ending (reader ?v') = EOF
               then ((x, None), (scanned_to ?v' [] (Suc (length bs)) buf)\<lparr>isEOF := True\<rparr>)
               else (([], Some (ending (reader ?v'))), scanned_to ?v' [] (Suc (length bs)) buf)))"
        by (rule Cons.IH [OF _ buf' js]) (use Cons.prems in simp_all)
      then obtain buf where len: "length buf = length (readBuffer v)"
        and rec: "scan ?v' (Suc (length acc)) (length d) (last d) =
         (case scanBytes d (length (readBuffer v)) (acc @ [b]) bs of
            Found x rest \<Rightarrow> ((x, None), scanned_to ?v' rest (length bs - length rest) buf)
          | TooLong x rest \<Rightarrow> ((x, Some ErrValueReaderMaxScanSizeLimit),
               scanned_to ?v' rest (length bs - length rest) buf)
          | AtEnd x \<Rightarrow>
              (if ending (reader v) = EOF
               then ((x, None), (scanned_to ?v' [] (Suc (length bs)) buf)\<lparr>isEOF := True\<rparr>)
               else (([], Some (ending (reader v))), scanned_to ?v' [] (Suc (length bs)) buf)))"
        unfolding e1 e2 e3 by blast
      have mv: "\<And>rest. length rest \<le> length bs \<Longrightarrow>
          scanned_to ?v' rest (length bs - length rest) buf
            = scanned_to v rest (length (b # bs) - length rest) buf"
        using Cons.prems(1) [symmetric] by (simp add: scanned_to_def Suc_diff_le)
      have mv0: "\<And>n. scanned_to ?v' [] (Suc (length bs)) buf = scanned_to v [] (Suc (length (b # bs))) buf"
        using Cons.prems(1) [symmetric] by (simp add: scanned_to_def)
      show ?thesis
      proof (cases "scanBytes d (length (readBuffer v)) (acc @ [b]) bs")
        case (Found x rest)
        from scanBytes_Found [OF Found] have "length rest \<le> length bs"
          by auto
        with unf sb nosuf ne rec Found mv len False show ?thesis
          by (intro exI [of _ buf]) (simp del: scanBytes.simps)
      next
        case (AtEnd x)
        with unf sb nosuf ne rec mv0 len False show ?thesis
          by (intro exI [of _ buf]) (simp del: scanBytes.simps)
      next
        case (TooLong x rest)
        from scanBytes_TooLong [OF TooLong] have "length rest \<le> length bs"
          by auto
        with unf sb nosuf ne rec TooLong mv len False show ?thesis
          by (intro exI [of _ buf]) (simp del: scanBytes.simps)
      qed
    qed
  qed
qed

lemma vr_ok_scanned_to [simp]:
  "vr_ok v \<Longrightarrow> length buf = length (readBuffer v) \<Longrightarrow> vr_ok (scanned_to v rest n buf)"
  by (auto simp: vr_ok_def)

lemma vr_ok_isEOF [simp]: "vr_ok (v\<lparr>isEOF := b\<rparr>) = vr_ok v"
  by (simp add: vr_ok_def)

lemma Next_scanBytes:
  assumes "vr_ok v" "\<not> isEOF v"
  shows "\<exists>buf. length buf = length (readBuffer v) \<and>
     Next v =
       (case scanBytes (delim v) (length (readBuffer v)) [] (pending (reader v)) of
          Found x rest \<Rightarrow>
            ((x, None), scanned_to v rest (length (pending (reader v)) - length rest) buf)
        | TooLong x rest \<Rightarrow>
            ((x, Some ErrValueReaderMaxScanSizeLimit),
             scanned_to v rest (length (pending (reader v)) - length rest) buf)
        | AtEnd x \<Rightarrow>
            (if ending (reader v) = EOF
             then ((x, None),
                   (scanned_to v [] (Suc (length (pending (reader v)))) buf)\<lparr>isEOF := True\<rparr>)
             else (([], Some (ending (reader v))),
                   scanned_to v [] (Suc (length (pending (reader v)))) buf)))"
proof -
  from assms have nx: "Next v = scan v (length ([]::bytes)) (length (delim v)) (last (delim v))"
    by (simp add: Next_def vr_ok_def)
  show ?thesis
    unfolding nx
    by (rule scan_scanBytes [where junk = "readBuffer v"]) (use assms in \<open>simp_all add: vr_ok_def\<close>)
qed

lemma Next_at_EOF: "isEOF v \<Longrightarrow> Next v = (([], Some EOF), v)"
  by (simp add: Next_def)


lemma example_reader_ok: "vr_ok example_reader" "\<not> isEOF example_reader"
  by (simp_all add: example_reader_def vr_ok_def)

lemma example_reader_scan:
  "scanBytes (delim example_reader) (length (readBuffer example_reader)) []
     (pending (reader example_reader)) = AtEnd ''ab''"
  by (simp add: example_reader_def stream_of_def suffix_Cons)

text \<open>
  Claim C6, as stated, fails: the call of \<open>Next\<close> that reaches the end of the stream
  returns the bytes it has with a \<open>nil\<close> error, not with \<open>io.EOF\<close>.  Here the reader is the
  one \<open>NewValueReader\<close> makes for the stream \<open>ab\<close> and the delimiter \<open>,\<close>.
\<close>

theorem Next_end_status_counterexample:
  "NewValueReader (stream_of ''ab'') '','' 0 = Some example_reader
   \<and> fst (Next example_reader) = (''ab'', None)
   \<and> fst (Next example_reader) \<noteq> (''ab'', Some EOF)"
proof -
  have "NewValueReader (stream_of ''ab'') '','' 0 = Some example_reader"
    by (simp add: NewValueReader_def example_reader_def MinValueMaxScanSizeLimit_def)
  moreover have "fst (Next example_reader) = (''ab'', None)"
    using Next_scanBytes [OF example_reader_ok] example_reader_scan
    by (auto simp: example_reader_def stream_of_def)
  ultimately show ?thesis by simp
qed

text \<open>
  Claim C6, amended.  When the scan reaches the end of the stream before a delimiter
  and before the scan limit, that call of \<open>Next\<close> returns the bytes read (all that was
  left of the stream, possibly none) with a \<open>nil\<close> error and marks the reader as ended;
  every later call returns \<open>nil\<close> bytes and \<open>io.EOF\<close> and leaves the reader, and with it the
  source and its count of reads, as it is.
\<close>

theorem Next_end_of_stream:
  assumes "vr_ok v" and "\<not> isEOF v" and "ending (reader v) = EOF"
    and "scanBytes (delim v) (length (readBuffer v)) [] (pending (reader v)) = AtEnd x"
  shows "\<exists>v'. Next v = ((x, None), v') \<and> x = pending (reader v) \<and> isEOF v'
           \<and> reads (reader v') = reads (reader v) + length x + 1
           \<and> Next v' = (([], Some EOF), v')"
proof -
  from Next_scanBytes [OF assms(1,2)] assms(3,4) obtain buf
    where nx: "Next v = ((x, None),
       (scanned_to v [] (Suc (length (pending (reader v)))) buf)\<lparr>isEOF := True\<rparr>)"
    by auto
  let ?v' = "(scanned_to v [] (Suc (length (pending (reader v)))) buf)\<lparr>isEOF := True\<rparr>"
  from scanBytes_AtEnd [OF assms(4)] have x: "x = pending (reader v)" by simp
  have "Next ?v' = (([], Some EOF), ?v')"
    by (rule Next_at_EOF) simp
  with nx x show ?thesis
    by (intro exI [of _ ?v']) simp
qed

theorem Next_end_of_stream_witness:
  "vr_ok example_reader \<and> \<not> isEOF example_reader \<and> ending (reader example_reader) = EOF
   \<and> (\<exists>v'. Next example_reader = ((''ab'', None), v') \<and> isEOF v'
          \<and> reads (reader v') = 3 \<and> Next v' = (([], Some EOF), v'))"
  using Next_end_of_stream [OF example_reader_ok _ example_reader_scan] example_reader_ok
  by (simp add: example_reader_def stream_of_def numeral_3_eq_3)

section \<open>The flush decision\<close>

text \<open>
  Claim C2, as stated, fails: the delimiter that follows the new value is not part of the
  size check.  With \<open>apple,pear,\<close> in the buffer and the limit 16, the value \<open>peach\<close> and
  one delimiter make 17 bytes, and the buffer is not empty, yet nothing is flushed.
\<close>

theorem preflush_delimiter_counted_counterexample:
  "chunkSizeLimit fruit_splitter
     < int (length (chunkBuffer fruit_splitter)) + int (length ''peach'')
       + int (length (delimiter fruit_splitter))
   \<and> 0 < length (chunkBuffer fruit_splitter)
   \<and> appendValue fruit_splitter 22 ''peach'' no_calls =
       (None, fruit_splitter\<lparr>chunkBuffer := ''apple,pear,peach,'', nextValueSn := 3\<rparr>, no_calls)"
  by (simp add: fruit_splitter_def example_splitter_def appendValue_def no_calls_def)

text \<open>
  Claim C2, amended.  A pre-flush of the buffer happens exactly when the length of the
  buffer (its values, each with its delimiter) plus the length of the accepted value
  alone exceeds \<open>ChunkSizeLimit\<close> and the buffer is not empty.  The buffer is taken to hold
  whole values: it is empty or at least as long as the delimiter.
\<close>

theorem appendValue_preflush:
  assumes "v \<noteq> []"
    and "chunkBuffer s = [] \<or> length (delimiter s) \<le> length (chunkBuffer s)"
    and "appendValue s n v tr = (e, s', tr')"
  shows "(handlerCalls tr' \<noteq> handlerCalls tr)
           = (chunkSizeLimit s < int (length (chunkBuffer s)) + int (length v)
              \<and> 0 < length (chunkBuffer s))"
  using assms
  by (auto simp: appendValue_def flushChunk_def Let_def split: if_splits)

theorem appendValue_preflush_witness:
  "(handlerCalls (snd (snd (appendValue fruit_splitter 22 ''peach'' no_calls))) \<noteq> handlerCalls no_calls)
     = (chunkSizeLimit fruit_splitter < int (length (chunkBuffer fruit_splitter)) + int (length ''peach'')
        \<and> 0 < length (chunkBuffer fruit_splitter))
   \<and> (handlerCalls (snd (snd (appendValue fruit_splitter 29 ''cherry'' no_calls))) \<noteq> handlerCalls no_calls)
     = (chunkSizeLimit fruit_splitter < int (length (chunkBuffer fruit_splitter)) + int (length ''cherry'')
        \<and> 0 < length (chunkBuffer fruit_splitter))
   \<and> handlerCalls (snd (snd (appendValue fruit_splitter 29 ''cherry'' no_calls))) =
        [\<lparr>ChunkSn = 0, StartValueSn = 0, EndValueSn = 1, ChunkData = ''apple,pear'', ScanByteNum = 29\<rparr>]"
  using appendValue_preflush [of "''peach''" fruit_splitter 22 no_calls]
     appendValue_preflush [of "''cherry''" fruit_splitter 29 no_calls]
  by (simp add: fruit_splitter_def example_splitter_def appendValue_def flushChunk_def no_calls_def)

section \<open>The start guard and the stop flag\<close>

lemma appendValue_flags:
  "appendValue s n v tr = (e, s', tr') \<Longrightarrow>
     started s' = started s \<and> stopped s' = stopped s \<and> delimiter s' = delimiter s
     \<and> chunkSizeLimit s' = chunkSizeLimit s \<and> valueFilter s' = valueFilter s"
  by (auto simp: appendValue_def Let_def split: if_splits option.splits)

lemma flushAtEOF_flags:
  "flushAtEOF s n tr = (e, s', tr') \<Longrightarrow>
     started s' = started s \<and> stopped s' = stopped s \<and> delimiter s' = delimiter s
     \<and> chunkSizeLimit s' = chunkSizeLimit s \<and> valueFilter s' = valueFilter s"
  by (auto simp: flushAtEOF_def Let_def split: if_splits option.splits)

text \<open>
  One iteration of the loop, by cases, and the induction that follows the iterations.
\<close>

lemma loop_cases [consumes 1, case_names stopped failed panic eof again]:
  assumes "loop s vr tr = res"
  obtains
    (stopped) "0 <s stopped s" "res = (Some ErrSplitterIsStopped, s, vr, tr)"
  | (failed) v err vr1 where "\<not> 0 <s stopped s" "Next vr = ((v, Some err), vr1)" "err \<noteq> EOF"
      "res = (Some err, s, vr1, tr)"
  | (panic) v err vr1 v1 tr1 e s2 tr2 where "\<not> 0 <s stopped s" "Next vr = ((v, err), vr1)"
      "err = None \<or> err = Some EOF" "filterValue s v tr = (v1, tr1)"
      "appendValue s (GetScanByteNum vr1) v1 tr1 = (Some e, s2, tr2)"
      "res = (Some e, s2, vr1, tr2)"
  | (eof) v vr1 v1 tr1 s2 tr2 e3 s3 tr3 where "\<not> 0 <s stopped s"
      "Next vr = ((v, Some EOF), vr1)" "filterValue s v tr = (v1, tr1)"
      "appendValue s (GetScanByteNum vr1) v1 tr1 = (None, s2, tr2)"
      "flushAtEOF s2 (GetScanByteNum vr1) tr2 = (e3, s3, tr3)"
      "res = (e3, s3, vr1, tr3)"
  | (again) v vr1 v1 tr1 s2 tr2 where "\<not> 0 <s stopped s"
      "Next vr = ((v, None), vr1)" "filterValue s v tr = (v1, tr1)"
      "appendValue s (GetScanByteNum vr1) v1 tr1 = (None, s2, tr2)"
      "loop s2 vr1 tr2 = res"
proof (cases "0 <s stopped s")
  case True
  with assms stopped show ?thesis by (subst (asm) loop.simps) simp
next
  case False
  obtain v err vr1 where nx: "Next vr = ((v, err), vr1)"
    by (metis surj_pair)
  obtain v1 tr1 where fv: "filterValue s v tr = (v1, tr1)"
    by (metis surj_pair)
  obtain e2 s2 tr2 where av: "appendValue s (GetScanByteNum vr1) v1 tr1 = (e2, s2, tr2)"
    by (metis surj_pair)
  obtain e3 s3 tr3 where fl: "flushAtEOF s2 (GetScanByteNum vr1) tr2 = (e3, s3, tr3)"
    by (metis surj_pair)
  have unf: "res = (if err \<noteq> None \<and> err \<noteq> Some EOF then (err, s, vr1, tr)
              else case e2 of Some e \<Rightarrow> (Some e, s2, vr1, tr2)
                   | None \<Rightarrow> if err = Some EOF then (e3, s3, vr1, tr3) else loop s2 vr1 tr2)"
    using assms False nx fv av fl
    by (subst (asm) loop.simps) (auto split: if_splits option.splits)
  show ?thesis
  proof (cases "err \<noteq> None \<and> err \<noteq> Some EOF")
    case True
    then obtain e where "err = Some e" "e \<noteq> EOF" by auto
    with unf False nx failed show ?thesis by simp
  next
    case okay: False
    show ?thesis
    proof (cases e2)
      case (Some e)
      with unf okay False nx fv av panic [of v err vr1 v1 tr1 e s2 tr2] show ?thesis by auto
    next
      case None
      show ?thesis
      proof (cases "err = Some EOF")
        case True
        with unf None False nx fv av fl eof [of v vr1 v1 tr1 s2 tr2 e3 s3 tr3] show ?thesis
          by simp
      next
        case False
        with okay have "err = None" by simp
        with unf None \<open>\<not> 0 <s stopped s\<close> nx fv av again [of v vr1 v1 tr1 s2 tr2]
        show ?thesis by simp
      qed
    qed
  qed
qed

lemma loop_induct [case_names step]:
  assumes "\<And>s vr tr.
     (\<And>v vr1 v1 tr1 s2 tr2.
        \<not> 0 <s stopped s \<Longrightarrow> Next vr = ((v, None), vr1) \<Longrightarrow> filterValue s v tr = (v1, tr1) \<Longrightarrow>
        appendValue s (GetScanByteNum vr1) v1 tr1 = (None, s2, tr2) \<Longrightarrow> P s2 vr1 tr2)
     \<Longrightarrow> P s vr tr"
  shows "P s vr tr"
proof (induction s vr tr rule: loop.induct)
  case (1 s vr tr)
  show ?case
  proof (rule assms)
    fix v vr1 v1 tr1 s2 tr2
    assume "\<not> 0 <s stopped s" "Next vr = ((v, None), vr1)" "filterValue s v tr = (v1, tr1)"
      "appendValue s (GetScanByteNum vr1) v1 tr1 = (None, s2, tr2)"
    then show "P s2 vr1 tr2"
      by (intro "1.IH" [of "(v, None)" vr1 v None v1 tr1 None "(s2, tr2)" s2 tr2]) simp_all
  qed
qed

lemma loop_flags:
  "loop s vr tr = (e, s', vr', tr') \<Longrightarrow>
     started s' = started s \<and> stopped s' = stopped s \<and> delimiter s' = delimiter s
     \<and> chunkSizeLimit s' = chunkSizeLimit s \<and> valueFilter s' = valueFilter s"
proof (induction s vr tr rule: loop_induct)
  case (step s vr tr)
  from step.prems show ?case
  proof (cases rule: loop_cases)
    case stopped
    then show ?thesis by simp
  next
    case (failed v err vr1)
    then show ?thesis by simp
  next
    case (panic v err vr1 v1 tr1 e s2 tr2)
    then show ?thesis by (auto dest: appendValue_flags)
  next
    case (eof v vr1 v1 tr1 s2 tr2 e3 s3 tr3)
    then show ?thesis by (auto dest!: appendValue_flags flushAtEOF_flags)
  next
    case (again v vr1 v1 tr1 s2 tr2)
    from step.IH [OF again(1-5)] appendValue_flags [OF again(4)] show ?thesis by simp
  qed
qed

text \<open>
  Claim C8.  A first call of \<open>RunSplit\<close> on a fresh instance leaves the start flag at 1, and
  it has that value from the atomic increment on, whatever the first run is doing.  A
  call that finds the flag at 1 (a second call, after the first or while it runs) returns
  \<open>ErrSplitterIsStarted\<close> at once: it reads nothing from its stream, calls no handler and
  no filter, and changes no field of the instance but the start flag.
\<close>

theorem RunSplit_second_call:
  assumes "started s = 0" and "RunSplit s rd = (e, s', rd', tr)"
  shows "started s' = 1
         \<and> (\<forall>s2 rd2. started s2 = 1 \<longrightarrow>
               RunSplit s2 rd2 =
                 (Some ErrSplitterIsStarted, s2\<lparr>started := 2\<rparr>, rd2,
                  \<lparr>handlerCalls = [], filterCalls = []\<rparr>))"
proof
  show "started s' = 1"
    using assms
    by (auto simp: RunSplit_def Let_def split: option.splits prod.splits dest!: loop_flags)
  show "\<forall>s2 rd2. started s2 = 1 \<longrightarrow>
          RunSplit s2 rd2 =
            (Some ErrSplitterIsStarted, s2\<lparr>started := 2\<rparr>, rd2,
             \<lparr>handlerCalls = [], filterCalls = []\<rparr>)"
    by (simp add: RunSplit_def Let_def)
qed

lemma NewSplitter_example: "NewSplitter example_conf = Some example_splitter"
  by (simp add: NewSplitter_def example_conf_def example_splitter_def MinChunkSizeLimit_def
        MinValueMaxScanSizeLimit_def)

lemma RunSplit_empty_stream:
  "RunSplit example_splitter (stream_of []) =
     (None, example_splitter\<lparr>started := 1\<rparr>, (stream_of [])\<lparr>reads := 1\<rparr>, no_calls)"
  by (simp add: example_splitter_def stream_of_def no_calls_def RunSplit_def NewValueReader_def
        MinValueMaxScanSizeLimit_def loop.simps Next_def scan.simps ReadByte_def filterValue_def
        appendValue_def flushAtEOF_def GetScanByteNum_def word_sless_alt)

theorem RunSplit_second_call_witness:
  "started example_splitter = 0
   \<and> RunSplit example_splitter (stream_of []) =
       (None, example_splitter\<lparr>started := 1\<rparr>, (stream_of [])\<lparr>reads := 1\<rparr>, no_calls)
   \<and> RunSplit (example_splitter\<lparr>started := 1\<rparr>) (stream_of ''a,b'') =
       (Some ErrSplitterIsStarted, example_splitter\<lparr>started := 2\<rparr>, stream_of ''a,b'', no_calls)"
  using RunSplit_second_call [of example_splitter "stream_of []", OF _ RunSplit_empty_stream]
    RunSplit_empty_stream
  by (simp add: example_splitter_def no_calls_def)

text \<open>
  Claim C9.  A run of an instance whose stop was requested before the call reads no byte,
  calls no handler and returns \<open>ErrSplitterIsStopped\<close>, a value of its own, different from
  \<open>nil\<close> and from every other error of the package.  At the top of any iteration, with
  any buffer, a stop request ends the loop with that value and flushes nothing.
\<close>

theorem RunSplit_stopped:
  assumes "NewSplitter conf = Some s"
  shows "RunSplit (Stop s) rd =
           (Some ErrSplitterIsStopped, (Stop s)\<lparr>started := 1\<rparr>, rd,
            \<lparr>handlerCalls = [], filterCalls = []\<rparr>)
         \<and> (\<forall>s1 vr tr. 0 <s stopped s1 \<longrightarrow>
               loop s1 vr tr = (Some ErrSplitterIsStopped, s1, vr, tr))"
proof
  from assms have s: "started s = 0" "stopped s = 0" "delimiter s \<noteq> []"
    by (auto simp: NewSplitter_def split: if_splits)
  have "(0::32 word) <s 1"
    by (simp add: word_sless_alt)
  with s show "RunSplit (Stop s) rd =
           (Some ErrSplitterIsStopped, (Stop s)\<lparr>started := 1\<rparr>, rd,
            \<lparr>handlerCalls = [], filterCalls = []\<rparr>)"
    by (simp add: RunSplit_def Stop_def Let_def NewValueReader_def loop.simps)
  show "\<forall>s1 vr tr. 0 <s stopped s1 \<longrightarrow>
               loop s1 vr tr = (Some ErrSplitterIsStopped, s1, vr, tr)"
    by (simp add: loop.simps)
qed

theorem RunSplit_stopped_witness:
  "NewSplitter example_conf = Some example_splitter
   \<and> RunSplit (Stop example_splitter) (stream_of ''a,b'') =
       (Some ErrSplitterIsStopped, example_splitter\<lparr>started := 1, stopped := 1\<rparr>,
        stream_of ''a,b'', no_calls)
   \<and> loop (example_splitter\<lparr>chunkBuffer := ''a,'', nextValueSn := 1, stopped := 1\<rparr>)
        \<lparr>reader = stream_of ''b'', readBuffer = ''a,'', delim = '','', valueMaxScanSizeLimit = 2,
         scanByteNum = 2, isEOF = False\<rparr> no_calls =
       (Some ErrSplitterIsStopped,
        example_splitter\<lparr>chunkBuffer := ''a,'', nextValueSn := 1, stopped := 1\<rparr>,
        \<lparr>reader = stream_of ''b'', readBuffer = ''a,'', delim = '','', valueMaxScanSizeLimit = 2,
         scanByteNum = 2, isEOF = False\<rparr>, no_calls)"
  using RunSplit_stopped [OF NewSplitter_example] NewSplitter_example
  by (simp add: example_splitter_def no_calls_def Stop_def word_sless_alt)

section \<open>The invariant of the loop\<close>

lemma terminated_simps [simp]:
  "terminated d [] = []"
  "terminated d (v # vs) = v @ d @ terminated d vs"
  "terminated d (vs @ ws) = terminated d vs @ terminated d ws"
  by (simp_all add: terminated_def)

lemma terminated_join: "vs \<noteq> [] \<Longrightarrow> terminated d vs = join d vs @ d"
  by (induction d vs rule: join.induct) simp_all

lemma join_snoc: "vs \<noteq> [] \<Longrightarrow> join d (vs @ [v]) = join d vs @ d @ v"
  by (induction d vs rule: join.induct) simp_all

lemma terminated_Nil_iff: "[] \<notin> set vs \<Longrightarrow> terminated d vs = [] \<longleftrightarrow> vs = []"
  by (cases vs) auto

lemma contiguous_snoc:
  "contiguous c v (xs @ [x]) \<longleftrightarrow>
     contiguous c v xs \<and> ChunkSn x = c + int (length xs)
     \<and> StartValueSn x = (if xs = [] then v else EndValueSn (last xs) + 1)
     \<and> StartValueSn x \<le> EndValueSn x"
  by (induction xs arbitrary: c v) auto

lemma inv_emitted_ok:
  "run_inv c0 acc s cs \<Longrightarrow> emitted_ok c0 (delimiter s) (chunkSizeLimit s) cs"
  by (simp add: run_inv_def emitted_ok_def)

lemma filterValue_calls:
  "filterValue s v tr = (v1, tr1) \<Longrightarrow> handlerCalls tr1 = handlerCalls tr"
  by (auto simp: filterValue_def split: option.splits if_splits)

text \<open>
  Flushing a buffer that holds the values \<open>vs\<close> hands the handler the chunk of these
  values, numbered as the invariant says.
\<close>

lemma flush_buffered:
  fixes n :: int
  assumes "run_inv c0 acc s (handlerCalls tr)" and "chunkBuffer s \<noteq> []"
  defines "c \<equiv> \<lparr>ChunkSn = chunkSn s, StartValueSn = chunkStartValueSn s,
                   EndValueSn = nextValueSn s - 1,
                   ChunkData = take (length (chunkBuffer s) - length (delimiter s)) (chunkBuffer s),
                   ScanByteNum = n\<rparr>"
  shows "flushChunk (s\<lparr>chunkSn := chunkSn s + 1\<rparr>)
           \<lparr>ChunkSn = chunkSn s, StartValueSn = chunkStartValueSn s,
            EndValueSn = nextValueSn s - 1, ChunkData = chunkBuffer s, ScanByteNum = n\<rparr> tr
         = Some (tr\<lparr>handlerCalls := handlerCalls tr @ [c]\<rparr>)"
    and "emitted_ok c0 (delimiter s) (chunkSizeLimit s) (handlerCalls tr @ [c])"
    and "covered (delimiter s) acc (handlerCalls tr @ [c])"
    and "chunkSn s + 1 = c0 + int (length (handlerCalls tr @ [c]))"
    and "nextValueSn s = EndValueSn (last (handlerCalls tr @ [c])) + 1"
proof -
  from assms(1) obtain vss vs where acc: "concat vss @ vs = acc"
    and vss: "list_all2 (chunk_of (delimiter s)) vss (handlerCalls tr)"
    and vs: "buffered s vs"
    and bound: "length vs \<le> 1 \<or> int (length (join (delimiter s) vs)) \<le> chunkSizeLimit s"
    by (auto simp: run_inv_def)
  from vs assms(2) have ne: "vs \<noteq> []"
    by (auto simp: buffered_def)
  with vs have buf: "chunkBuffer s = join (delimiter s) vs @ delimiter s"
    by (simp add: buffered_def terminated_join)
  then have data: "ChunkData c = join (delimiter s) vs"
    by (simp add: c_def)
  from buf show "flushChunk (s\<lparr>chunkSn := chunkSn s + 1\<rparr>)
           \<lparr>ChunkSn = chunkSn s, StartValueSn = chunkStartValueSn s,
            EndValueSn = nextValueSn s - 1, ChunkData = chunkBuffer s, ScanByteNum = n\<rparr> tr
         = Some (tr\<lparr>handlerCalls := handlerCalls tr @ [c]\<rparr>)"
    by (simp add: flushChunk_def c_def)
  have ch: "chunk_of (delimiter s) vs c"
    using vs ne data by (simp add: chunk_of_def buffered_def c_def)
  moreover have "int (length (ChunkData c)) \<le> chunkSizeLimit s \<or> length vs = 1"
    using bound ne data by (cases vs) auto
  ultimately have "sound_chunk (delimiter s) (chunkSizeLimit s) c"
    by (auto simp: sound_chunk_def)
  moreover have "StartValueSn c \<le> EndValueSn c"
    using vs ne by (cases vs) (auto simp: buffered_def c_def)
  ultimately show "emitted_ok c0 (delimiter s) (chunkSizeLimit s) (handlerCalls tr @ [c])"
    using assms(1) by (auto simp: run_inv_def emitted_ok_def contiguous_snoc c_def)
  from vss ch have "list_all2 (chunk_of (delimiter s)) (vss @ [vs]) (handlerCalls tr @ [c])"
    by (simp add: list_all2_appendI)
  with acc show "covered (delimiter s) acc (handlerCalls tr @ [c])"
    unfolding covered_def by (intro exI [of _ "vss @ [vs]"]) simp
  show "chunkSn s + 1 = c0 + int (length (handlerCalls tr @ [c]))"
    using assms(1) by (simp add: run_inv_def)
  show "nextValueSn s = EndValueSn (last (handlerCalls tr @ [c])) + 1"
    by (simp add: c_def)
qed

lemma appendValue_inv:
  assumes "run_inv c0 acc s (handlerCalls tr)" and "appendValue s n v tr = (e, s', tr')"
  shows "e = None \<and> run_inv c0 (if v = [] then acc else acc @ [v]) s' (handlerCalls tr')
         \<and> filterCalls tr' = filterCalls tr"
proof (cases "v = []")
  case True
  with assms show ?thesis by (simp add: appendValue_def)
next
  case False
  show ?thesis
  proof (cases "chunkSizeLimit s < int (length (chunkBuffer s)) + int (length v)
                \<and> 0 < length (chunkBuffer s)")
    case True
    then have ne: "chunkBuffer s \<noteq> []" by auto
    define c where "c = \<lparr>ChunkSn = chunkSn s, StartValueSn = chunkStartValueSn s,
        EndValueSn = nextValueSn s - 1,
        ChunkData = take (length (chunkBuffer s) - length (delimiter s)) (chunkBuffer s),
        ScanByteNum = n\<rparr>"
    note fl = flush_buffered [OF assms(1) ne, of n, folded c_def]
    from assms(2) False True fl(1)
    have res: "e = None" "tr' = tr\<lparr>handlerCalls := handlerCalls tr @ [c]\<rparr>"
      "s' = s\<lparr>chunkSn := chunkSn s + 1, chunkBuffer := v @ delimiter s,
               chunkStartValueSn := nextValueSn s, nextValueSn := nextValueSn s + 1\<rparr>"
      by (auto simp: appendValue_def Let_def)
    have b: "buffered s' [v]"
      using False by (simp add: res buffered_def)
    from fl(3) obtain vss where vss: "concat vss = acc"
      "list_all2 (chunk_of (delimiter s)) vss (handlerCalls tr @ [c])"
      by (auto simp: covered_def)
    have "\<exists>vss vs. concat vss @ vs = acc @ [v]
            \<and> list_all2 (chunk_of (delimiter s')) vss (handlerCalls tr')
            \<and> buffered s' vs
            \<and> (length vs \<le> 1 \<or> int (length (join (delimiter s') vs)) \<le> chunkSizeLimit s')"
      using vss b by (intro exI [of _ vss] exI [of _ "[v]"]) (simp add: res)
    with fl(2,4,5) False show ?thesis
      unfolding run_inv_def emitted_ok_def by (simp add: res)
  next
    case no: False
    from assms(1) obtain vss vs where acc: "concat vss @ vs = acc"
      and vss: "list_all2 (chunk_of (delimiter s)) vss (handlerCalls tr)"
      and vs: "buffered s vs"
      and bound: "length vs \<le> 1 \<or> int (length (join (delimiter s) vs)) \<le> chunkSizeLimit s"
      by (auto simp: run_inv_def)
    from no assms(2) \<open>v \<noteq> []\<close>
    have res: "e = None" "tr' = tr"
      "s' = s\<lparr>chunkBuffer := chunkBuffer s @ v @ delimiter s, nextValueSn := nextValueSn s + 1\<rparr>"
      by (auto simp: appendValue_def Let_def)
    have b: "buffered s' (vs @ [v])"
      using vs \<open>v \<noteq> []\<close> by (simp add: res buffered_def)
    have "length (vs @ [v]) \<le> 1
          \<or> int (length (join (delimiter s) (vs @ [v]))) \<le> chunkSizeLimit s"
    proof (cases "vs = []")
      case True
      then show ?thesis by simp
    next
      case False
      with vs have "chunkBuffer s = join (delimiter s) vs @ delimiter s"
        by (simp add: buffered_def terminated_join)
      moreover from vs False have "chunkBuffer s \<noteq> []"
        by (metis buffered_def terminated_Nil_iff)
      ultimately show ?thesis
        using no False by (auto simp: join_snoc)
    qed
    with b acc vss
    have "\<exists>vss vs. concat vss @ vs = acc @ [v]
            \<and> list_all2 (chunk_of (delimiter s')) vss (handlerCalls tr')
            \<and> buffered s' vs
            \<and> (length vs \<le> 1 \<or> int (length (join (delimiter s') vs)) \<le> chunkSizeLimit s')"
      by (intro exI [of _ vss] exI [of _ "vs @ [v]"]) (simp add: res)
    with assms(1) \<open>v \<noteq> []\<close> show ?thesis
      unfolding run_inv_def by (simp add: res)
  qed
qed

lemma flushAtEOF_inv:
  assumes "run_inv c0 acc s (handlerCalls tr)" and "flushAtEOF s n tr = (e, s', tr')"
  shows "e = None \<and> emitted_ok c0 (delimiter s) (chunkSizeLimit s) (handlerCalls tr')
         \<and> covered (delimiter s) acc (handlerCalls tr')
         \<and> chunkBuffer s' = [] \<and> filterCalls tr' = filterCalls tr
         \<and> chunkSn s' = c0 + int (length (handlerCalls tr'))
         \<and> nextValueSn s' =
             (if handlerCalls tr' = [] then 0 else EndValueSn (last (handlerCalls tr')) + 1)"
proof (cases "chunkBuffer s = []")
  case True
  from assms(1) obtain vss vs where acc: "concat vss @ vs = acc"
    and vss: "list_all2 (chunk_of (delimiter s)) vss (handlerCalls tr)"
    and vs: "buffered s vs"
    by (auto simp: run_inv_def)
  with True have e: "vs = []"
    by (metis buffered_def terminated_Nil_iff)
  with vs have "nextValueSn s = chunkStartValueSn s"
    by (simp add: buffered_def)
  moreover from acc vss e have "covered (delimiter s) acc (handlerCalls tr)"
    by (auto simp: covered_def)
  moreover note inv_emitted_ok [OF assms(1)]
  moreover from assms(1) have "chunkSn s = c0 + int (length (handlerCalls tr))"
    "chunkStartValueSn s =
       (if handlerCalls tr = [] then 0 else EndValueSn (last (handlerCalls tr)) + 1)"
    by (simp_all add: run_inv_def)
  ultimately show ?thesis
    using assms(2) True by (simp add: flushAtEOF_def)
next
  case False
  define c where "c = \<lparr>ChunkSn = chunkSn s, StartValueSn = chunkStartValueSn s,
      EndValueSn = nextValueSn s - 1,
      ChunkData = take (length (chunkBuffer s) - length (delimiter s)) (chunkBuffer s),
      ScanByteNum = n\<rparr>"
  note fl = flush_buffered [OF assms(1) False, of n, folded c_def]
  from assms(2) False fl(1)
  have res: "e = None" "tr' = tr\<lparr>handlerCalls := handlerCalls tr @ [c]\<rparr>"
    "s' = s\<lparr>chunkSn := chunkSn s + 1, chunkBuffer := []\<rparr>"
    by (auto simp: flushAtEOF_def Let_def)
  with fl(2,3,4,5) show ?thesis by simp
qed

text \<open>Every run keeps the invariant, whatever the stream does.\<close>

lemma loop_emitted:
  "run_inv c0 acc s (handlerCalls tr) \<Longrightarrow> loop s vr tr = (e, s', vr', tr') \<Longrightarrow>
     emitted_ok c0 (delimiter s) (chunkSizeLimit s) (handlerCalls tr')"
proof (induction s vr tr arbitrary: acc rule: loop_induct)
  case (step s vr tr)
  from step.prems(2) show ?case
  proof (cases rule: loop_cases)
    case stopped
    with step.prems(1) show ?thesis by (simp add: inv_emitted_ok)
  next
    case (failed v err vr1)
    with step.prems(1) show ?thesis by (simp add: inv_emitted_ok)
  next
    case (panic v err vr1 v1 tr1 e2 s2 tr2)
    from step.prems(1) filterValue_calls [OF panic(4)]
    have "run_inv c0 acc s (handlerCalls tr1)" by simp
    from appendValue_inv [OF this panic(5)] show ?thesis by simp
  next
    case (eof v vr1 v1 tr1 s2 tr2 e3 s3 tr3)
    from step.prems(1) filterValue_calls [OF eof(3)]
    have "run_inv c0 acc s (handlerCalls tr1)" by simp
    from appendValue_inv [OF this eof(4)] flushAtEOF_inv [OF _ eof(5)] appendValue_flags [OF eof(4)] eof(6)
    show ?thesis by auto
  next
    case (again v vr1 v1 tr1 s2 tr2)
    from step.prems(1) filterValue_calls [OF again(3)]
    have "run_inv c0 acc s (handlerCalls tr1)" by simp
    from appendValue_inv [OF this again(4)]
    have "run_inv c0 (if v1 = [] then acc else acc @ [v1]) s2 (handlerCalls tr2)" by simp
    from step.IH [OF again(1-4) this again(5)] appendValue_flags [OF again(4)]
    show ?thesis by simp
  qed
qed

lemma NewSplitter_inv:
  "NewSplitter conf = Some s \<Longrightarrow> run_inv c0 [] (s\<lparr>chunkSn := c0, started := k\<rparr>) []"
  by (auto simp: NewSplitter_def run_inv_def buffered_def split: if_splits)

lemma RunSplit_emitted:
  assumes "NewSplitter conf = Some s" and "RunSplit (s\<lparr>chunkSn := c0\<rparr>) rd = (e, s', rd', tr)"
  shows "emitted_ok c0 (Delim conf) (max (ChunkSizeLimit conf) MinChunkSizeLimit) (handlerCalls tr)"
proof -
  let ?s1 = "s\<lparr>chunkSn := c0, started := started s + 1\<rparr>"
  from assms(1) have d: "delimiter ?s1 = Delim conf"
    "chunkSizeLimit ?s1 = max (ChunkSizeLimit conf) MinChunkSizeLimit"
    by (auto simp: NewSplitter_def split: if_splits)
  from assms(2)
  consider (none) "handlerCalls tr = []"
    | (run) vr vr2 where "loop ?s1 vr \<lparr>handlerCalls = [], filterCalls = []\<rparr> = (e, s', vr2, tr)"
    by (auto simp: RunSplit_def Let_def split: if_splits option.splits prod.splits)
  then show ?thesis
  proof cases
    case none
    then show ?thesis by (simp add: emitted_ok_def)
  next
    case run
    from loop_emitted [OF _ run, of c0 "[]"] NewSplitter_inv [OF assms(1)] d show ?thesis
      by simp
  qed
qed

section \<open>Runs on streams that end cleanly\<close>

lemma values_from_not_Nil [simp]: "values_from d acc data \<noteq> []"
  by (induction data arbitrary: acc) auto

lemma values_from_single:
  "values_from d acc data = [v] \<Longrightarrow> v = acc @ data"
proof (induction data arbitrary: acc)
  case Nil
  then show ?case by simp
next
  case (Cons b bs)
  show ?case
  proof (cases "suffix d (acc @ [b])")
    case True
    with Cons.prems show ?thesis by (simp del: suffix_snoc)
  next
    case False
    with Cons.prems have "values_from d (acc @ [b]) bs = [v]" by (simp del: suffix_snoc)
    from Cons.IH [OF this] show ?thesis by simp
  qed
qed

lemma values_from_first:
  "values_from d acc data = v # w # ws \<Longrightarrow>
     \<exists>pre rest. data = pre @ rest \<and> pre \<noteq> [] \<and> v @ d = acc @ pre"
proof (induction data arbitrary: acc)
  case Nil
  then show ?case by simp
next
  case (Cons b bs)
  show ?case
  proof (cases "suffix d (acc @ [b])")
    case True
    with Cons.prems have "v = take (Suc (length acc) - length d) (acc @ [b])"
      by (simp del: suffix_snoc)
    with suffix_take [OF True] have "v @ d = acc @ [b]" by simp
    then show ?thesis by (intro exI [of _ "[b]"] exI [of _ bs]) simp
  next
    case False
    with Cons.prems have "values_from d (acc @ [b]) bs = v # w # ws" by (simp del: suffix_snoc)
    from Cons.IH [OF this] obtain pre rest where "bs = pre @ rest" "v @ d = (acc @ [b]) @ pre"
      by blast
    then show ?thesis by (intro exI [of _ "b # pre"] exI [of _ rest]) simp
  qed
qed

text \<open>When every value fits under the scan limit, a scan finds the first value.\<close>

lemma scanBytes_values:
  assumes "fits lim d (values_from d acc data)"
  shows "case scanBytes d lim acc data of
           Found x rest \<Rightarrow> values_from d acc data = x # values_from d [] rest
         | AtEnd x \<Rightarrow> values_from d acc data = [x]
         | TooLong x rest \<Rightarrow> False"
  using assms
proof (induction data arbitrary: acc)
  case Nil
  then show ?case by simp
next
  case (Cons b bs)
  show ?case
  proof (cases "suffix d (acc @ [b])")
    case True
    then show ?thesis by (simp del: suffix_snoc)
  next
    case False
    then have vf: "values_from d acc (b # bs) = values_from d (acc @ [b]) bs"
      by (simp del: suffix_snoc)
    show ?thesis
    proof (cases "Suc (length acc) = lim")
      case True
      have False
      proof (cases "values_from d (acc @ [b]) bs")
        case Nil
        then show False by simp
      next
        case (Cons v ws)
        show False
        proof (cases ws)
          case Nil
          with Cons values_from_single have "v = (acc @ [b]) @ bs" by blast
          with Cons.prems vf Cons Nil True show False by simp
        next
          case (Cons w ws')
          with \<open>values_from d (acc @ [b]) bs = v # ws\<close> values_from_first
          obtain pre rest where "pre \<noteq> []" "v @ d = (acc @ [b]) @ pre" by blast
          then have "length v + length d > Suc (length acc)"
            by (metis length_append length_append_singleton length_greater_0_conv less_add_same_cancel1)
          with Cons.prems vf \<open>values_from d (acc @ [b]) bs = v # ws\<close> Cons True show False by simp
        qed
      qed
      then show ?thesis ..
    next
      case ne: False
      from Cons.prems vf have "fits lim d (values_from d (acc @ [b]) bs)" by simp
      from Cons.IH [OF this] False ne show ?thesis
        by (auto simp del: suffix_snoc split: scanned.splits)
    qed
  qed
qed

lemma loop_step:
  assumes "\<not> 0 <s stopped s" and "Next vr = ((v, None), vr1)"
    and "filterValue s v tr = (v1, tr1)"
    and "appendValue s (GetScanByteNum vr1) v1 tr1 = (e2, s2, tr2)"
  shows "loop s vr tr =
           (case e2 of Some e \<Rightarrow> (Some e, s2, vr1, tr2) | None \<Rightarrow> loop s2 vr1 tr2)"
  using assms by (subst loop.simps) (simp split: option.splits)

lemma loop_last:
  assumes "\<not> 0 <s stopped s" and "isEOF vr"
  shows "loop s vr tr =
           (case flushAtEOF s (GetScanByteNum vr) tr of (e, s', tr') \<Rightarrow> (e, s', vr, tr'))"
  using assms
  by (subst loop.simps)
     (simp add: Next_at_EOF filterValue_def appendValue_def split: option.splits)

lemma fits_tail: "fits lim d (v # ws) \<Longrightarrow> ws \<noteq> [] \<Longrightarrow> fits lim d ws"
  by (cases ws) auto

lemma loop_feed:
  assumes "values_from (delim vr) [] (pending (reader vr)) = vs"
    and "vr_ok vr" and "\<not> isEOF vr" and "ending (reader vr) = EOF"
    and "delim vr = delimiter s" and "\<not> 0 <s stopped s"
    and "fits (length (readBuffer vr)) (delim vr) vs"
  shows "\<exists>vr'. loop s vr tr =
             (case feed s (scanByteNum vr) vs tr of (e, s', tr') \<Rightarrow> (e, s', vr', tr'))
           \<and> (fst (feed s (scanByteNum vr) vs tr) = None \<longrightarrow>
                reader vr' = (reader vr)\<lparr>pending := [],
                   reads := reads (reader vr) + length (pending (reader vr)) + 1\<rparr>)"
  using assms
proof (induction vs arbitrary: s vr tr)
  case Nil
  then show ?case by simp
next
  case (Cons v ws)
  let ?d = "delim vr" and ?data = "pending (reader vr)" and ?n = "scanByteNum vr"
  obtain v1 tr1 where fv: "filterValue s v tr = (v1, tr1)"
    by (metis surj_pair)
  from Next_scanBytes [OF Cons.prems(2,3)] obtain buf
    where len: "length buf = length (readBuffer vr)"
      and nx: "Next vr =
       (case scanBytes ?d (length (readBuffer vr)) [] ?data of
          Found x rest \<Rightarrow> ((x, None), scanned_to vr rest (length ?data - length rest) buf)
        | TooLong x rest \<Rightarrow> ((x, Some ErrValueReaderMaxScanSizeLimit),
             scanned_to vr rest (length ?data - length rest) buf)
        | AtEnd x \<Rightarrow>
            (if ending (reader vr) = EOF
             then ((x, None), (scanned_to vr [] (Suc (length ?data)) buf)\<lparr>isEOF := True\<rparr>)
             else (([], Some (ending (reader vr))), scanned_to vr [] (Suc (length ?data)) buf)))"
    by blast
  from scanBytes_values [of "length (readBuffer vr)" ?d "[]" ?data] Cons.prems(1,7)
  have sv: "case scanBytes ?d (length (readBuffer vr)) [] ?data of
           Found x rest \<Rightarrow> v # ws = x # values_from ?d [] rest
         | AtEnd x \<Rightarrow> v # ws = [x]
         | TooLong x rest \<Rightarrow> False"
    by (auto split: scanned.splits)
  show ?case
  proof (cases "scanBytes ?d (length (readBuffer vr)) [] ?data")
    case (TooLong x rest)
    with sv show ?thesis by simp
  next
    case (AtEnd x)
    with sv have v: "v = x" "ws = []" by simp_all
    from scanBytes_AtEnd [OF AtEnd] have x: "x = ?data" by simp
    let ?vr1 = "(scanned_to vr [] (Suc (length ?data)) buf)\<lparr>isEOF := True\<rparr>"
    from nx AtEnd Cons.prems(4) v have nx1: "Next vr = ((v, None), ?vr1)" by simp
    have n1: "GetScanByteNum ?vr1 = ?n + int (length v)"
      using v x by (simp add: GetScanByteNum_def)
    obtain e2 s2 tr2 where av: "appendValue s (?n + int (length v)) v1 tr1 = (e2, s2, tr2)"
      by (metis surj_pair)
    from appendValue_flags [OF av] Cons.prems(6) have ns: "\<not> 0 <s stopped s2" by simp
    have lp: "loop s vr tr =
        (case e2 of Some e \<Rightarrow> (Some e, s2, ?vr1, tr2) | None \<Rightarrow> loop s2 ?vr1 tr2)"
      by (rule loop_step [OF Cons.prems(6) nx1 fv]) (simp add: n1 av)
    obtain e3 s3 tr3 where fe: "flushAtEOF s2 (?n + int (length v)) tr2 = (e3, s3, tr3)"
      by (metis surj_pair)
    have l2: "loop s2 ?vr1 tr2 = (e3, s3, ?vr1, tr3)"
      using loop_last [OF ns, of ?vr1 tr2] n1 fe by simp
    have fd: "feed s ?n (v # ws) tr =
        (case e2 of Some e \<Rightarrow> (Some e, s2, tr2) | None \<Rightarrow> (e3, s3, tr3))"
      using fv av fe by (simp add: v(2) Let_def split: option.splits)
    have rdr: "reader ?vr1 =
        (reader vr)\<lparr>pending := [], reads := reads (reader vr) + length ?data + 1\<rparr>"
      by (simp add: scanned_to_def)
    show ?thesis
    proof (cases e2)
      case None
      with lp l2 fd rdr show ?thesis
        by (intro exI [of _ ?vr1]) (simp del: feed.simps)
    next
      case (Some e)
      with lp fd show ?thesis
        by (intro exI [of _ ?vr1]) (simp del: feed.simps)
    qed
  next
    case (Found x rest)
    with sv have v: "v = x" "ws = values_from ?d [] rest" by simp_all
    then have wsne: "ws \<noteq> []" by simp
    from scanBytes_Found [OF Found] obtain pre where pre: "?data = pre @ rest" "pre = x @ ?d"
      by auto
    let ?vr1 = "scanned_to vr rest (length ?data - length rest) buf"
    from nx Found v have nx1: "Next vr = ((v, None), ?vr1)" by simp
    have n1: "GetScanByteNum ?vr1 = ?n + int (length v) + int (length (delimiter s))"
      using v pre Cons.prems(5) by (simp add: GetScanByteNum_def)
    obtain e2 s2 tr2
      where av: "appendValue s (?n + int (length v) + int (length (delimiter s))) v1 tr1 = (e2, s2, tr2)"
      by (metis surj_pair)
    note fl = appendValue_flags [OF av]
    have lp: "loop s vr tr =
        (case e2 of Some e \<Rightarrow> (Some e, s2, ?vr1, tr2) | None \<Rightarrow> loop s2 ?vr1 tr2)"
      by (rule loop_step [OF Cons.prems(6) nx1 fv]) (simp add: n1 av)
    have fd: "feed s ?n (v # ws) tr =
        (case e2 of Some e \<Rightarrow> (Some e, s2, tr2)
         | None \<Rightarrow> feed s2 (?n + int (length v) + int (length (delimiter s))) ws tr2)"
      using wsne fv av by (simp add: Let_def split: option.splits)
    have "\<exists>vr'. loop s2 ?vr1 tr2 =
             (case feed s2 (scanByteNum ?vr1) ws tr2 of (e, s', tr') \<Rightarrow> (e, s', vr', tr'))
           \<and> (fst (feed s2 (scanByteNum ?vr1) ws tr2) = None \<longrightarrow>
                reader vr' = (reader ?vr1)\<lparr>pending := [],
                   reads := reads (reader ?vr1) + length (pending (reader ?vr1)) + 1\<rparr>)"
    proof (rule Cons.IH)
      show "values_from (delim ?vr1) [] (pending (reader ?vr1)) = ws"
        using v by simp
      show "vr_ok ?vr1" using Cons.prems(2) len by simp
      show "\<not> isEOF ?vr1" using Cons.prems(3) by simp
      show "ending (reader ?vr1) = EOF" using Cons.prems(4) by simp
      show "delim ?vr1 = delimiter s2" using Cons.prems(5) fl by simp
      show "\<not> 0 <s stopped s2" using Cons.prems(6) fl by simp
      show "fits (length (readBuffer ?vr1)) (delim ?vr1) ws"
        using fits_tail [OF Cons.prems(7) wsne] len by simp
    qed
    then obtain vr' where both: "loop s2 ?vr1 tr2 =
             (case feed s2 (scanByteNum ?vr1) ws tr2 of (e, s', tr') \<Rightarrow> (e, s', vr', tr'))
           \<and> (fst (feed s2 (scanByteNum ?vr1) ws tr2) = None \<longrightarrow>
                reader vr' = (reader ?vr1)\<lparr>pending := [],
                   reads := reads (reader ?vr1) + length (pending (reader ?vr1)) + 1\<rparr>)" ..
    note rec = both [THEN conjunct1] and rd = both [THEN conjunct2]
    have sn: "scanByteNum ?vr1 = ?n + int (length v) + int (length (delimiter s))"
      using n1 by (simp add: GetScanByteNum_def)
    have rd': "(reader ?vr1)\<lparr>pending := [],
                   reads := reads (reader ?vr1) + length (pending (reader ?vr1)) + 1\<rparr>
               = (reader vr)\<lparr>pending := [], reads := reads (reader vr) + length ?data + 1\<rparr>"
      using pre by (simp add: scanned_to_def)
    show ?thesis
    proof (cases e2)
      case (Some e)
      then show ?thesis by (intro exI [of _ ?vr1]) (simp add: lp fd del: feed.simps)
    next
      case None
      with rec rd show ?thesis
        unfolding sn rd' by (intro exI [of _ vr']) (simp add: lp fd del: feed.simps)
    qed
  qed
qed

lemma filterValue_value:
  "filterValue s v tr = (v1, tr1) \<Longrightarrow>
     v1 = (if v = [] then [] else (case valueFilter s of None \<Rightarrow> v | Some f \<Rightarrow> f v))"
  by (auto simp: filterValue_def split: option.splits if_splits)

lemma accepted_Nil [simp]: "accepted flt [] = []"
  by (simp add: accepted_def)

lemma accepted_Cons:
  "accepted flt (v # vs) =
     (let v1 = (if v = [] then [] else (case flt of None \<Rightarrow> v | Some f \<Rightarrow> f v))
      in (if v1 = [] then [] else [v1]) @ accepted flt vs)"
  by (simp add: accepted_def Let_def split: option.splits)

lemma feed_inv:
  "run_inv c0 acc s (handlerCalls tr) \<Longrightarrow> feed s n vs tr = (e, s', tr') \<Longrightarrow>
     e = None \<and> emitted_ok c0 (delimiter s) (chunkSizeLimit s) (handlerCalls tr')
     \<and> covered (delimiter s) (acc @ accepted (valueFilter s) vs) (handlerCalls tr')
     \<and> chunkBuffer s' = []
     \<and> chunkSn s' = c0 + int (length (handlerCalls tr'))
     \<and> nextValueSn s' =
         (if handlerCalls tr' = [] then 0 else EndValueSn (last (handlerCalls tr')) + 1)"
proof (induction vs arbitrary: s n tr acc)
  case Nil
  from flushAtEOF_inv [OF Nil.prems(1), of n e s' tr'] Nil.prems(2) show ?case by simp
next
  case (Cons v vs)
  define n' where "n' = n + int (length v) + (if vs = [] then 0 else int (length (delimiter s)))"
  obtain v1 tr1 where fv: "filterValue s v tr = (v1, tr1)"
    by (metis surj_pair)
  obtain e2 s2 tr2 where av: "appendValue s n' v1 tr1 = (e2, s2, tr2)"
    by (metis surj_pair)
  from Cons.prems(1) filterValue_calls [OF fv]
  have "run_inv c0 acc s (handlerCalls tr1)" by simp
  from appendValue_inv [OF this av]
  have e2: "e2 = None"
    and inv2: "run_inv c0 (if v1 = [] then acc else acc @ [v1]) s2 (handlerCalls tr2)"
    by simp_all
  from Cons.prems(2) fv av e2 have "feed s2 n' vs tr2 = (e, s', tr')"
    by (simp add: n'_def Let_def)
  note ih = Cons.IH [OF inv2 this]
  note fl = appendValue_flags [OF av]
  have "(if v1 = [] then acc else acc @ [v1]) @ accepted (valueFilter s) vs
        = acc @ accepted (valueFilter s) (v # vs)"
    using filterValue_value [OF fv] by (simp add: accepted_Cons Let_def)
  with ih fl show ?case by simp
qed

lemma join_Cons: "vs \<noteq> [] \<Longrightarrow> join d (v # vs) = v @ d @ join d vs"
  by (cases vs) simp_all

lemma join_append:
  "xs \<noteq> [] \<Longrightarrow> ys \<noteq> [] \<Longrightarrow> join d (xs @ ys) = join d xs @ d @ join d ys"
  by (induction d xs rule: join.induct) (simp_all add: join_Cons)

lemma join_concat:
  "\<forall>vs \<in> set vss. vs \<noteq> [] \<Longrightarrow> join d (map (join d) vss) = join d (concat vss)"
proof (induction vss rule: induct_list012)
  case 1
  then show ?case by simp
next
  case (2 vs)
  then show ?case by simp
next
  case (3 vs ws wss)
  then have "concat (ws # wss) \<noteq> []" by simp
  with 3 show ?case
    by (simp add: join_append del: concat.simps) (simp add: join_append)
qed

lemma covered_payloads:
  assumes "covered d acc cs"
  shows "join d (map ChunkData cs) = join d acc"
proof -
  from assms obtain vss where acc: "concat vss = acc" and all: "list_all2 (chunk_of d) vss cs"
    by (auto simp: covered_def)
  from all have "map ChunkData cs = map (join d) vss"
    by (induction rule: list_all2_induct) (simp_all add: chunk_of_def)
  moreover from all have "\<forall>vs \<in> set vss. vs \<noteq> []"
    by (induction rule: list_all2_induct) (simp_all add: chunk_of_def)
  ultimately show ?thesis
    using acc by (simp add: join_concat)
qed

text \<open>
  A run on a stream that ends cleanly, every value of which fits under the scan limit,
  is the iterations of \<open>feed\<close> over the values of the stream; it reads the whole stream
  and one end of stream.
\<close>

lemma RunSplit_feed:
  assumes "NewSplitter conf = Some s0" and "s = s0\<lparr>chunkSn := c0\<rparr>" and "ending rd = EOF"
    and "fits (nat (s_valueMaxScanSizeLimit s0)) (Delim conf) (split_values (Delim conf) (pending rd))"
  shows "RunSplit s rd =
           (case feed (s\<lparr>started := 1\<rparr>) 0 (split_values (Delim conf) (pending rd)) no_calls of
              (e, s', tr') \<Rightarrow>
                (e, s', rd\<lparr>pending := [], reads := reads rd + length (pending rd) + 1\<rparr>, tr'))"
proof -
  let ?s1 = "s\<lparr>started := 1\<rparr>"
  let ?lim = "s_valueMaxScanSizeLimit s0"
  let ?vr = "\<lparr>reader = rd, readBuffer = replicate (nat ?lim) (CHR 0x00), delim = Delim conf,
              valueMaxScanSizeLimit = ?lim, scanByteNum = 0, isEOF = False\<rparr>"
  from assms(1) have s0: "started s0 = 0" "stopped s0 = 0" "delimiter s0 = Delim conf"
    "Delim conf \<noteq> []" "MinValueMaxScanSizeLimit \<le> ?lim"
    by (auto simp: NewSplitter_def split: if_splits)
  have nv: "NewValueReader rd (delimiter ?s1) (s_valueMaxScanSizeLimit ?s1) = Some ?vr"
    using s0 assms(2) by (simp add: NewValueReader_def max_def Let_def)
  have rs: "RunSplit s rd =
      (case loop ?s1 ?vr no_calls of (err, s2, vr2, tr2) \<Rightarrow> (err, s2, reader vr2, tr2))"
    using s0 assms(2) nv by (simp add: RunSplit_def no_calls_def)
  have ok: "vr_ok ?vr"
    using s0 by (simp add: vr_ok_def MinValueMaxScanSizeLimit_def)
  have ns: "\<not> 0 <s stopped ?s1"
    using s0 assms(2) by simp
  from loop_feed [of ?vr "split_values (Delim conf) (pending rd)" ?s1 no_calls] ok ns s0 assms(2,3,4)
  obtain vr' where lp: "loop ?s1 ?vr no_calls =
       (case feed ?s1 0 (split_values (Delim conf) (pending rd)) no_calls of
          (e, s', tr') \<Rightarrow> (e, s', vr', tr'))"
    and rd: "fst (feed ?s1 0 (split_values (Delim conf) (pending rd)) no_calls) = None \<longrightarrow>
       reader vr' = rd\<lparr>pending := [], reads := reads rd + length (pending rd) + 1\<rparr>"
    by (auto simp: split_values_def)
  obtain e s' tr' where fd: "feed ?s1 0 (split_values (Delim conf) (pending rd)) no_calls = (e, s', tr')"
    by (metis surj_pair)
  have "run_inv c0 [] ?s1 (handlerCalls no_calls)"
    using NewSplitter_inv [OF assms(1), of c0 1] assms(2) by (simp add: no_calls_def)
  from feed_inv [OF this fd] have "e = None" by simp
  with rs lp rd fd show ?thesis by simp
qed

section \<open>The example of the repository\<close>

lemma NewSplitter_fruit: "NewSplitter fruit_conf = Some fruit_start"
  by (simp add: NewSplitter_def fruit_conf_def fruit_start_def example_splitter_def
        MinChunkSizeLimit_def MinValueMaxScanSizeLimit_def)

lemma fruit_values:
  "split_values '','' ''apple,banana,pear,peach,cherry'' =
     [''apple'', ''banana'', ''pear'', ''peach'', ''cherry'']"
  by (simp add: split_values_def suffix_Cons)

lemma fruit_run:
  "RunSplit (fruit_start\<lparr>chunkSn := c0\<rparr>) fruit_stream =
     (None,
      fruit_start\<lparr>chunkBuffer := [], chunkSn := c0 + 2, chunkStartValueSn := 3,
                   nextValueSn := 4, started := 1\<rparr>,
      fruit_stream\<lparr>pending := [], reads := 31\<rparr>,
      \<lparr>handlerCalls = fruit_chunks c0,
       filterCalls = [''apple'', ''banana'', ''pear'', ''peach'', ''cherry'']\<rparr>)"
proof -
  have "fits (nat (s_valueMaxScanSizeLimit fruit_start)) (Delim fruit_conf)
          (split_values (Delim fruit_conf) (pending fruit_stream))"
    by (simp add: fruit_conf_def fruit_stream_def stream_of_def fruit_values fruit_start_def
          example_splitter_def)
  from RunSplit_feed [OF NewSplitter_fruit refl _ this, of c0] show ?thesis
    by (simp add: fruit_conf_def fruit_stream_def stream_of_def fruit_values fruit_start_def
          example_splitter_def no_calls_def filterValue_def appendValue_def flushAtEOF_def
          flushChunk_def drop_banana_def fruit_chunks_def Let_def)
qed

lemma fruit_run0:
  "RunSplit fruit_start fruit_stream =
     (None,
      fruit_start\<lparr>chunkBuffer := [], chunkSn := 2, chunkStartValueSn := 3,
                   nextValueSn := 4, started := 1\<rparr>,
      fruit_stream\<lparr>pending := [], reads := 31\<rparr>,
      \<lparr>handlerCalls = fruit_chunks 0,
       filterCalls = [''apple'', ''banana'', ''pear'', ''peach'', ''cherry'']\<rparr>)"
  using fruit_run [of 0] by (simp add: fruit_start_def example_splitter_def)

section \<open>The earlier versions of the splitter\<close>















text \<open>
  On a stop request before the run, \<open>Split\<close> of the first version reads nothing, calls no
  handler and returns \<open>nil\<close>.
\<close>

lemma Split_stopped_nil:
  assumes "NewSplitter1 conf = Some t"
  shows "Split (Stop1 t) rd =
           (None, (Stop1 t)\<lparr>started1 := 1\<rparr>, rd, \<lparr>handlerCalls1 = [], filterCalls1 = []\<rparr>)"
proof -
  from assms have t: "started1 t = 0" "stopped1 t = 0" "delimiter1 t \<noteq> []"
    by (auto simp: NewSplitter1_def split: if_splits)
  have "(0::32 word) <s 1"
    by (simp add: word_sless_alt)
  with t show ?thesis
    by (simp add: Split_def Stop1_def Let_def NewValueReader_def loop1.simps)
qed

text \<open>
  In the second version the buffer that is flushed ends with the delimiter, and so does
  the data the handler is called with.
\<close>

lemma flushChunk2_keeps_delimiter:
  assumes "ChunkData args = terminated (delimiter s) vs" and "vs \<noteq> []"
  shows "\<exists>tr'. flushChunk2 s args tr = Some tr'
           \<and> handlerCalls tr' = handlerCalls tr @ [args]
           \<and> suffix (delimiter s) (ChunkData (last (handlerCalls tr')))"
proof -
  from assms(2) obtain ws w where vs: "vs = ws @ [w]"
    by (cases vs rule: rev_cases) auto
  have "ChunkData args = (terminated (delimiter s) ws @ w) @ delimiter s"
    by (simp add: assms(1) vs terminated_def)
  then show ?thesis
    by (auto simp: flushChunk2_def suffix_def)
qed

section \<open>Sequence numbers, sizes and payloads of the chunks\<close>



text \<open>
  Claim C3.  In every run, the payload of every chunk (its values and the delimiters
  between them) has at most \<open>ChunkSizeLimit\<close> bytes, unless the chunk holds exactly one
  value and that value alone is longer than the limit.
\<close>

theorem chunk_size_bound:
  assumes "NewSplitter conf = Some s" and "RunSplit s rd = (e, s', rd', tr)"
  shows "\<forall>c \<in> set (handlerCalls tr).
           \<exists>vs. chunk_of (Delim conf) vs c
             \<and> (int (length (ChunkData c)) \<le> chunkSizeLimit s
                \<or> (\<exists>v. vs = [v] \<and> chunkSizeLimit s < int (length v)))"
proof
  fix c assume c: "c \<in> set (handlerCalls tr)"
  from assms(1) have s: "s\<lparr>chunkSn := 0\<rparr> = s"
    "chunkSizeLimit s = max (ChunkSizeLimit conf) MinChunkSizeLimit"
    by (auto simp: NewSplitter_def split: if_splits)
  from RunSplit_emitted [OF assms(1), of 0 rd e s' rd' tr] assms(2) s c
  obtain vs where vs: "chunk_of (Delim conf) vs c"
    and b: "int (length (ChunkData c)) \<le> chunkSizeLimit s \<or> length vs = 1"
    by (auto simp: emitted_ok_def sound_chunk_def)
  show "\<exists>vs. chunk_of (Delim conf) vs c
             \<and> (int (length (ChunkData c)) \<le> chunkSizeLimit s
                \<or> (\<exists>v. vs = [v] \<and> chunkSizeLimit s < int (length v)))"
  proof (cases "int (length (ChunkData c)) \<le> chunkSizeLimit s")
    case True
    with vs show ?thesis by blast
  next
    case False
    with b have "length vs = 1" by simp
    then obtain v where v: "vs = [v]" by (cases vs) auto
    with vs have "ChunkData c = v" by (simp add: chunk_of_def)
    with False v vs show ?thesis by auto
  qed
qed

section \<open>A value longer than the chunk limit\<close>

lemma NewSplitter_flags:
  "NewSplitter conf = Some s \<Longrightarrow>
     chunkBuffer s = [] \<and> chunkSn s = 0 \<and> chunkStartValueSn s = 0 \<and> nextValueSn s = 0
     \<and> delimiter s = Delim conf \<and> Delim conf \<noteq> [] \<and> valueFilter s = ValueFilter conf
     \<and> started s = 0 \<and> stopped s = 0
     \<and> chunkSizeLimit s = max (ChunkSizeLimit conf) MinChunkSizeLimit
     \<and> s_valueMaxScanSizeLimit s = max (ValueMaxScanSizeLimit conf) MinValueMaxScanSizeLimit"
  by (auto simp: NewSplitter_def split: if_splits)

text \<open>
  Claim C4.  A value longer than the limit that arrives at an empty buffer goes into the
  buffer whole and alone, and nothing is flushed; it is then flushed as one chunk, with
  its own bytes as payload, by the next accepted value or by the end of the stream.
  When such a value, with no delimiter in it, is all there is in the stream, the run
  hands the handler exactly one chunk, chunk 0 with the values 0 to 0, whose payload is
  the value.
\<close>

theorem oversized_value_alone:
  assumes "NewSplitter conf = Some s" and "ValueFilter conf = None"
    and "chunkSizeLimit s < int (length v)"
    and "split_values (Delim conf) v = [v]"
    and "length v < nat (s_valueMaxScanSizeLimit s)"
  shows "RunSplit s (stream_of v) =
           (None, s\<lparr>chunkBuffer := [], chunkSn := 1, nextValueSn := 1, started := 1\<rparr>,
            (stream_of v)\<lparr>pending := [], reads := length v + 1\<rparr>,
            \<lparr>handlerCalls = [\<lparr>ChunkSn = 0, StartValueSn = 0, EndValueSn = 0, ChunkData = v,
                              ScanByteNum = int (length v)\<rparr>],
             filterCalls = []\<rparr>)
         \<and> (\<forall>s1 n tr. chunkBuffer s1 = [] \<longrightarrow>
               appendValue s1 n v tr =
                 (None, s1\<lparr>chunkBuffer := v @ delimiter s1, nextValueSn := nextValueSn s1 + 1\<rparr>, tr))
         \<and> (\<forall>s1 n tr w. chunkBuffer s1 = v @ delimiter s1 \<and> chunkSizeLimit s1 = chunkSizeLimit s
                 \<and> w \<noteq> [] \<longrightarrow>
               handlerCalls (snd (snd (appendValue s1 n w tr))) =
                 handlerCalls tr @
                   [\<lparr>ChunkSn = chunkSn s1, StartValueSn = chunkStartValueSn s1,
                     EndValueSn = nextValueSn s1 - 1, ChunkData = v, ScanByteNum = n\<rparr>])
         \<and> (\<forall>s1 n tr. chunkBuffer s1 = v @ delimiter s1 \<longrightarrow>
               handlerCalls (snd (snd (flushAtEOF s1 n tr))) =
                 handlerCalls tr @
                   [\<lparr>ChunkSn = chunkSn s1, StartValueSn = chunkStartValueSn s1,
                     EndValueSn = nextValueSn s1 - 1, ChunkData = v, ScanByteNum = n\<rparr>])"
proof (intro conjI allI impI)
  note f = NewSplitter_flags [OF assms(1)]
  from f assms(3) have pos: "0 < int (length v)" "v \<noteq> []"
    by (auto simp: MinChunkSizeLimit_def)
  have "fits (nat (s_valueMaxScanSizeLimit s)) (Delim conf)
          (split_values (Delim conf) (pending (stream_of v)))"
    using assms(4,5) by (simp add: stream_of_def)
  from RunSplit_feed [OF assms(1) _ _ this, of s 0] f assms(2,4) pos
  show "RunSplit s (stream_of v) =
           (None, s\<lparr>chunkBuffer := [], chunkSn := 1, nextValueSn := 1, started := 1\<rparr>,
            (stream_of v)\<lparr>pending := [], reads := length v + 1\<rparr>,
            \<lparr>handlerCalls = [\<lparr>ChunkSn = 0, StartValueSn = 0, EndValueSn = 0, ChunkData = v,
                              ScanByteNum = int (length v)\<rparr>],
             filterCalls = []\<rparr>)"
    by (simp add: stream_of_def no_calls_def filterValue_def appendValue_def flushAtEOF_def
          flushChunk_def Let_def)
next
  fix s1 :: splitter and n :: int and tr :: calls
  assume "chunkBuffer s1 = []"
  moreover from NewSplitter_flags [OF assms(1)] assms(3) have "v \<noteq> []"
    by (auto simp: MinChunkSizeLimit_def)
  ultimately show "appendValue s1 n v tr =
      (None, s1\<lparr>chunkBuffer := v @ delimiter s1, nextValueSn := nextValueSn s1 + 1\<rparr>, tr)"
    by (simp add: appendValue_def)
next
  fix s1 :: splitter and n :: int and tr :: calls and w :: bytes
  assume "chunkBuffer s1 = v @ delimiter s1 \<and> chunkSizeLimit s1 = chunkSizeLimit s \<and> w \<noteq> []"
  moreover from NewSplitter_flags [OF assms(1)] assms(3) have "v \<noteq> []"
    by (auto simp: MinChunkSizeLimit_def)
  ultimately show "handlerCalls (snd (snd (appendValue s1 n w tr))) =
      handlerCalls tr @
        [\<lparr>ChunkSn = chunkSn s1, StartValueSn = chunkStartValueSn s1,
          EndValueSn = nextValueSn s1 - 1, ChunkData = v, ScanByteNum = n\<rparr>]"
    using assms(3) by (simp add: appendValue_def flushChunk_def Let_def)
next
  fix s1 :: splitter and n :: int and tr :: calls
  assume "chunkBuffer s1 = v @ delimiter s1"
  moreover from NewSplitter_flags [OF assms(1)] assms(3) have "v \<noteq> []"
    by (auto simp: MinChunkSizeLimit_def)
  ultimately show "handlerCalls (snd (snd (flushAtEOF s1 n tr))) =
      handlerCalls tr @
        [\<lparr>ChunkSn = chunkSn s1, StartValueSn = chunkStartValueSn s1,
          EndValueSn = nextValueSn s1 - 1, ChunkData = v, ScanByteNum = n\<rparr>]"
    by (simp add: flushAtEOF_def flushChunk_def Let_def)
qed

lemma long_value_values: "split_values '','' long_value = [long_value]"
  by (simp add: split_values_def long_value_def suffix_Cons)

lemma long_value_run:
  "RunSplit example_splitter (stream_of long_value) =
     (None, example_splitter\<lparr>chunkBuffer := [], chunkSn := 1, nextValueSn := 1, started := 1\<rparr>,
      (stream_of long_value)\<lparr>pending := [], reads := 31\<rparr>,
      \<lparr>handlerCalls = [\<lparr>ChunkSn = 0, StartValueSn = 0, EndValueSn = 0, ChunkData = long_value,
                        ScanByteNum = 30\<rparr>],
       filterCalls = []\<rparr>)"
proof -
  have "fits (nat (s_valueMaxScanSizeLimit example_splitter)) (Delim example_conf)
          (split_values (Delim example_conf) (pending (stream_of long_value)))"
    by (simp add: example_conf_def stream_of_def long_value_values)
       (simp add: long_value_def example_splitter_def)
  from RunSplit_feed [OF NewSplitter_example _ _ this, of example_splitter 0] show ?thesis
    by (simp add: example_conf_def stream_of_def long_value_values example_splitter_def)
       (simp add: long_value_def no_calls_def filterValue_def appendValue_def flushAtEOF_def
          flushChunk_def Let_def)
qed

theorem oversized_value_alone_witness:
  "NewSplitter example_conf = Some example_splitter \<and> ValueFilter example_conf = None
   \<and> chunkSizeLimit example_splitter = 16 \<and> length long_value = 30
   \<and> split_values (Delim example_conf) long_value = [long_value]
   \<and> RunSplit example_splitter (stream_of long_value) =
       (None, example_splitter\<lparr>chunkBuffer := [], chunkSn := 1, nextValueSn := 1, started := 1\<rparr>,
        (stream_of long_value)\<lparr>pending := [], reads := 31\<rparr>,
        \<lparr>handlerCalls = [\<lparr>ChunkSn = 0, StartValueSn = 0, EndValueSn = 0, ChunkData = long_value,
                          ScanByteNum = 30\<rparr>],
         filterCalls = []\<rparr>)
   \<and> appendValue example_splitter 31 long_value no_calls =
       (None, example_splitter\<lparr>chunkBuffer := long_value @ '','', nextValueSn := 1\<rparr>, no_calls)
   \<and> handlerCalls (snd (snd (appendValue
         (example_splitter\<lparr>chunkBuffer := long_value @ '','', nextValueSn := 1\<rparr>) 33 ''b''
         no_calls))) =
       [\<lparr>ChunkSn = 0, StartValueSn = 0, EndValueSn = 0, ChunkData = long_value,
         ScanByteNum = 33\<rparr>]
   \<and> handlerCalls (snd (snd (flushAtEOF
         (example_splitter\<lparr>chunkBuffer := long_value @ '','', nextValueSn := 1\<rparr>) 31
         no_calls))) =
       [\<lparr>ChunkSn = 0, StartValueSn = 0, EndValueSn = 0, ChunkData = long_value,
         ScanByteNum = 31\<rparr>]"
proof -
  have a: "ValueFilter example_conf = None" "Delim example_conf = '',''"
    by (simp_all add: example_conf_def)
  have b: "chunkSizeLimit example_splitter < int (length long_value)"
    "length long_value < nat (s_valueMaxScanSizeLimit example_splitter)"
    "chunkSizeLimit example_splitter = 16" "length long_value = 30"
    by (simp_all add: example_splitter_def long_value_def)
  have c: "split_values (Delim example_conf) long_value = [long_value]"
    by (simp add: a long_value_values)
  note t = oversized_value_alone [OF NewSplitter_example a(1) b(1) c b(2)]
  have d: "chunkBuffer example_splitter = []" "delimiter example_splitter = '',''"
    "chunkSn example_splitter = 0" "chunkStartValueSn example_splitter = 0"
    "nextValueSn example_splitter = 0" "handlerCalls no_calls = []"
    by (simp_all add: example_splitter_def no_calls_def)
  let ?s1 = "example_splitter\<lparr>chunkBuffer := long_value @ '','', nextValueSn := 1\<rparr>"
  from t have "appendValue example_splitter 31 long_value no_calls =
       (None, ?s1, no_calls)"
    using d by simp
  moreover from t have "handlerCalls (snd (snd (appendValue ?s1 33 ''b'' no_calls))) =
       [\<lparr>ChunkSn = 0, StartValueSn = 0, EndValueSn = 0, ChunkData = long_value,
         ScanByteNum = 33\<rparr>]"
    using d by simp
  moreover from t have "handlerCalls (snd (snd (flushAtEOF ?s1 31 no_calls))) =
       [\<lparr>ChunkSn = 0, StartValueSn = 0, EndValueSn = 0, ChunkData = long_value,
         ScanByteNum = 31\<rparr>]"
    using d by simp
  moreover from t have "RunSplit example_splitter (stream_of long_value) =
       (None, example_splitter\<lparr>chunkBuffer := [], chunkSn := 1, nextValueSn := 1, started := 1\<rparr>,
        (stream_of long_value)\<lparr>pending := [], reads := 31\<rparr>,
        \<lparr>handlerCalls = [\<lparr>ChunkSn = 0, StartValueSn = 0, EndValueSn = 0, ChunkData = long_value,
                          ScanByteNum = 30\<rparr>],
         filterCalls = []\<rparr>)"
    using b by simp
  ultimately show ?thesis
    using NewSplitter_example a b c by simp
qed

theorem chunk_size_bound_witness:
  "NewSplitter example_conf = Some example_splitter
   \<and> handlerCalls (snd (snd (snd (RunSplit example_splitter (stream_of long_value))))) =
       [\<lparr>ChunkSn = 0, StartValueSn = 0, EndValueSn = 0, ChunkData = long_value,
         ScanByteNum = 30\<rparr>]
   \<and> (\<exists>vs. chunk_of (Delim example_conf) vs
              \<lparr>ChunkSn = 0, StartValueSn = 0, EndValueSn = 0, ChunkData = long_value,
               ScanByteNum = 30\<rparr>
          \<and> (int (length long_value) \<le> chunkSizeLimit example_splitter
             \<or> (\<exists>v. vs = [v] \<and> chunkSizeLimit example_splitter < int (length v))))"
  using chunk_size_bound [OF NewSplitter_example long_value_run] NewSplitter_example
  by (simp add: long_value_run)

section \<open>The payload of a chunk\<close>














section \<open>The chunks of a run and the values of its stream\<close>

lemma loop_fail:
  assumes "\<not> 0 <s stopped s" and "Next vr = ((v, Some e), vr1)" and "e \<noteq> EOF"
  shows "loop s vr tr = (Some e, s, vr1, tr)"
  using assms by (subst loop.simps) simp

lemma no_suffix_replicate:
  assumes "d \<noteq> []" and "x \<notin> set d"
  shows "\<not> suffix d (replicate k x)"
proof
  assume "suffix d (replicate k x)"
  then have "set d \<subseteq> set (replicate k x)"
    by (rule set_mono_suffix)
  with assms show False
    by (cases d) auto
qed

lemma scanBytes_replicate:
  assumes "d \<noteq> []" and "x \<notin> set d"
  shows "k < lim \<Longrightarrow> lim \<le> k + n \<Longrightarrow>
     scanBytes d lim (replicate k x) (replicate n x) =
       TooLong (replicate lim x) (replicate (k + n - lim) x)"
proof (induction n arbitrary: k)
  case 0
  then show ?case by simp
next
  case (Suc n)
  have app: "replicate k x @ [x] = replicate (Suc k) x"
    by (simp add: replicate_append_same)
  have ns: "\<not> suffix d (replicate (Suc k) x)"
    by (rule no_suffix_replicate [OF assms])
  show ?case
  proof (cases "Suc k = lim")
    case True
    with ns app show ?thesis
      by (simp del: suffix_snoc replicate_Suc add: replicate_Suc [symmetric])
         (simp add: replicate_append_same)
  next
    case False
    with Suc.prems have "Suc k < lim" "lim \<le> Suc k + n" by simp_all
    from Suc.IH [OF this] False ns app show ?thesis
      by (simp del: suffix_snoc replicate_Suc add: replicate_Suc [symmetric])
         (simp add: replicate_append_same)
  qed
qed

lemma values_from_replicate:
  assumes "d \<noteq> []" and "x \<notin> set d"
  shows "values_from d (replicate k x) (replicate n x) = [replicate (k + n) x]"
proof (induction n arbitrary: k)
  case 0
  then show ?case by simp
next
  case (Suc n)
  have app: "replicate k x @ [x] = replicate (Suc k) x"
    by (simp add: replicate_append_same)
  have ns: "\<not> suffix d (replicate (Suc k) x)"
    by (rule no_suffix_replicate [OF assms])
  from Suc.IH [of "Suc k"] ns app show ?case
    by (simp del: suffix_snoc replicate_Suc add: replicate_Suc [symmetric])
       (simp add: replicate_append_same)
qed

lemma too_long_values:
  "split_values '','' (''a,'' @ replicate 4096 (CHR ''x'')) = [''a'', replicate 4096 (CHR ''x'')]"
  using values_from_replicate [of "'',''" "CHR ''x''" 0 4096]
  by (simp add: split_values_def suffix_Cons)

lemma too_long_run:
  "RunSplit example_splitter too_long_stream =
     (Some ErrValueReaderMaxScanSizeLimit,
      example_splitter\<lparr>chunkBuffer := ''a,'', nextValueSn := 1, started := 1\<rparr>,
      too_long_stream\<lparr>pending := [], reads := 4098\<rparr>, no_calls)"
proof -
  let ?s1 = "example_splitter\<lparr>started := 1\<rparr>"
  let ?s2 = "example_splitter\<lparr>chunkBuffer := ''a,'', nextValueSn := 1, started := 1\<rparr>"
  let ?xs = "replicate 4096 (CHR ''x'')"
  let ?vr = "\<lparr>reader = too_long_stream, readBuffer = replicate 4096 (CHR 0x00), delim = '','',
              valueMaxScanSizeLimit = 4096, scanByteNum = 0, isEOF = False\<rparr>"
  have rs: "RunSplit example_splitter too_long_stream =
      (case loop ?s1 ?vr no_calls of (err, s2, vr2, tr2) \<Rightarrow> (err, s2, reader vr2, tr2))"
    by (simp add: RunSplit_def NewValueReader_def example_splitter_def no_calls_def
          MinValueMaxScanSizeLimit_def)
  have ok: "vr_ok ?vr" "\<not> isEOF ?vr"
    by (simp_all add: vr_ok_def)
  have ns: "\<not> 0 <s stopped ?s1" "\<not> 0 <s stopped ?s2"
    by (simp_all add: example_splitter_def)
  have sb: "scanBytes '','' 4096 [] (''a,'' @ ?xs) = Found ''a'' ?xs"
    by (simp add: suffix_Cons)
  from Next_scanBytes [OF ok] sb obtain buf where len: "length buf = 4096"
    and nx: "Next ?vr = ((''a'', None), scanned_to ?vr ?xs 2 buf)"
    by (auto simp: too_long_stream_def stream_of_def)
  let ?vr1 = "scanned_to ?vr ?xs 2 buf"
  have fv: "filterValue ?s1 ''a'' no_calls = (''a'', no_calls)"
    by (simp add: filterValue_def example_splitter_def)
  have av: "appendValue ?s1 (GetScanByteNum ?vr1) ''a'' no_calls = (None, ?s2, no_calls)"
    by (simp add: appendValue_def example_splitter_def)
  have l1: "loop ?s1 ?vr no_calls = loop ?s2 ?vr1 no_calls"
    using loop_step [OF ns(1) nx fv av] by simp
  have ok1: "vr_ok ?vr1" "\<not> isEOF ?vr1"
    using ok len by simp_all
  have sb1: "scanBytes '','' 4096 [] ?xs = TooLong ?xs []"
    using scanBytes_replicate [of "'',''" "CHR ''x''" 0 4096 4096] by simp
  from Next_scanBytes [OF ok1] sb1 len obtain buf2
    where nx1: "Next ?vr1 = ((?xs, Some ErrValueReaderMaxScanSizeLimit),
                  scanned_to ?vr1 [] 4096 buf2)"
    by auto
  have l2: "loop ?s2 ?vr1 no_calls =
      (Some ErrValueReaderMaxScanSizeLimit, ?s2, scanned_to ?vr1 [] 4096 buf2, no_calls)"
    by (rule loop_fail [OF ns(2) nx1]) simp
  have "reader (scanned_to ?vr1 [] 4096 buf2) = too_long_stream\<lparr>pending := [], reads := 4098\<rparr>"
    by (simp add: scanned_to_def too_long_stream_def stream_of_def)
  with rs l1 l2 show ?thesis by simp
qed

text \<open>
  Claim C1, as stated, fails for a stream on which the run does not succeed.  Here the
  second value of the stream reaches the scan limit: the run returns
  \<open>ErrValueReaderMaxScanSizeLimit\<close> and has flushed nothing, though it accepted the value
  \<open>a\<close>, gave it the number 0 and holds it in its buffer.
\<close>

theorem values_lost_counterexample:
  "NewSplitter example_conf = Some example_splitter
   \<and> RunSplit example_splitter too_long_stream =
       (Some ErrValueReaderMaxScanSizeLimit,
        example_splitter\<lparr>chunkBuffer := ''a,'', nextValueSn := 1, started := 1\<rparr>,
        too_long_stream\<lparr>pending := [], reads := 4098\<rparr>, no_calls)
   \<and> accepted (ValueFilter example_conf)
         (split_values (Delim example_conf) (pending too_long_stream))
       = [''a'', replicate 4096 (CHR ''x'')]
   \<and> join (Delim example_conf) (map ChunkData (handlerCalls no_calls)) = []"
proof -
  have "accepted (ValueFilter example_conf)
         (split_values (Delim example_conf) (pending too_long_stream))
       = [''a'', replicate 4096 (CHR ''x'')]"
    using too_long_values
    by (simp add: example_conf_def too_long_stream_def stream_of_def accepted_def)
  with NewSplitter_example too_long_run show ?thesis
    by (simp add: no_calls_def)
qed

text \<open>
  Claim C1, amended.  On a stream that ends cleanly and whose values all fit under the
  scan limit, the run succeeds, and its chunks hold, in order, exactly the accepted
  values of the stream: chunk by chunk, the payload is the values of the chunk with the
  delimiter between them, and the values of all chunks together are the accepted
  values in their order.  Hence the payloads, joined with the delimiter, are the
  accepted values joined with the delimiter.
\<close>

theorem RunSplit_reproduces_values:
  assumes "NewSplitter conf = Some s" and "ending rd = EOF"
    and "fits (nat (s_valueMaxScanSizeLimit s)) (Delim conf)
           (split_values (Delim conf) (pending rd))"
  shows "\<exists>s' rd' tr. RunSplit s rd = (None, s', rd', tr)
           \<and> covered (Delim conf)
                (accepted (ValueFilter conf) (split_values (Delim conf) (pending rd)))
                (handlerCalls tr)
           \<and> join (Delim conf) (map ChunkData (handlerCalls tr))
               = join (Delim conf)
                   (accepted (ValueFilter conf) (split_values (Delim conf) (pending rd)))"
proof -
  let ?vs = "split_values (Delim conf) (pending rd)"
  let ?s1 = "s\<lparr>started := 1\<rparr>"
  note f = NewSplitter_flags [OF assms(1)]
  from f have s: "s = s\<lparr>chunkSn := 0\<rparr>" by simp
  obtain e s' tr' where fd: "feed ?s1 0 ?vs no_calls = (e, s', tr')"
    by (metis surj_pair)
  have "run_inv 0 [] ?s1 (handlerCalls no_calls)"
    using NewSplitter_inv [OF assms(1), of 0 1] s by (simp add: no_calls_def)
  from feed_inv [OF this fd] f
  have e: "e = None"
    and cov: "covered (Delim conf) (accepted (ValueFilter conf) ?vs) (handlerCalls tr')"
    by simp_all
  from RunSplit_feed [OF assms(1) s assms(2,3)] fd e
  have "RunSplit s rd =
      (None, s', rd\<lparr>pending := [], reads := reads rd + length (pending rd) + 1\<rparr>, tr')"
    by simp
  with cov covered_payloads [OF cov] show ?thesis by blast
qed

theorem RunSplit_reproduces_values_witness:
  "NewSplitter fruit_conf = Some fruit_start \<and> ending fruit_stream = EOF
   \<and> split_values (Delim fruit_conf) (pending fruit_stream)
       = [''apple'', ''banana'', ''pear'', ''peach'', ''cherry'']
   \<and> accepted (ValueFilter fruit_conf) (split_values (Delim fruit_conf) (pending fruit_stream))
       = [''apple'', ''pear'', ''peach'', ''cherry'']
   \<and> fst (RunSplit fruit_start fruit_stream) = None
   \<and> handlerCalls (snd (snd (snd (RunSplit fruit_start fruit_stream)))) = fruit_chunks 0
   \<and> covered '','' [''apple'', ''pear'', ''peach'', ''cherry''] (fruit_chunks 0)
   \<and> join '','' (map ChunkData (fruit_chunks 0)) = ''apple,pear,peach,cherry''"
proof -
  have v: "split_values (Delim fruit_conf) (pending fruit_stream)
       = [''apple'', ''banana'', ''pear'', ''peach'', ''cherry'']"
    by (simp add: fruit_conf_def fruit_stream_def stream_of_def fruit_values)
  have a: "accepted (ValueFilter fruit_conf) (split_values (Delim fruit_conf) (pending fruit_stream))
       = [''apple'', ''pear'', ''peach'', ''cherry'']"
    unfolding v by (simp add: fruit_conf_def accepted_def drop_banana_def)
  have e: "ending fruit_stream = EOF"
    by (simp add: fruit_stream_def stream_of_def)
  have f: "fits (nat (s_valueMaxScanSizeLimit fruit_start)) (Delim fruit_conf)
          (split_values (Delim fruit_conf) (pending fruit_stream))"
    unfolding v by (simp add: fruit_conf_def fruit_start_def example_splitter_def)
  have d: "Delim fruit_conf = '',''"
    by (simp add: fruit_conf_def)
  from RunSplit_reproduces_values [OF NewSplitter_fruit e f]
  have "covered '','' [''apple'', ''pear'', ''peach'', ''cherry''] (fruit_chunks 0)
        \<and> join '','' (map ChunkData (fruit_chunks 0)) = join '','' [''apple'', ''pear'', ''peach'', ''cherry'']"
    unfolding a unfolding d by (simp add: fruit_run0)
  with NewSplitter_fruit e v a show ?thesis
    by (simp add: fruit_run0)
qed

section \<open>Empty values\<close>

lemma appendValue_filterCalls:
  "appendValue s n v tr = (e, s', tr') \<Longrightarrow> filterCalls tr' = filterCalls tr"
  by (auto simp: appendValue_def flushChunk_def Let_def split: if_splits)

lemma flushAtEOF_filterCalls:
  "flushAtEOF s n tr = (e, s', tr') \<Longrightarrow> filterCalls tr' = filterCalls tr"
  by (auto simp: flushAtEOF_def flushChunk_def Let_def split: if_splits)

lemma filterValue_filterCalls:
  "filterValue s v tr = (v1, tr1) \<Longrightarrow> [] \<notin> set (filterCalls tr) \<Longrightarrow> [] \<notin> set (filterCalls tr1)"
  by (auto simp: filterValue_def split: option.splits if_splits)

lemma loop_filterCalls:
  "[] \<notin> set (filterCalls tr) \<Longrightarrow> loop s vr tr = (e, s', vr', tr') \<Longrightarrow>
     [] \<notin> set (filterCalls tr')"
proof (induction s vr tr rule: loop_induct)
  case (step s vr tr)
  from step.prems(2) show ?case
  proof (cases rule: loop_cases)
    case stopped
    with step.prems(1) show ?thesis by simp
  next
    case (failed v err vr1)
    with step.prems(1) show ?thesis by simp
  next
    case (panic v err vr1 v1 tr1 e2 s2 tr2)
    from filterValue_filterCalls [OF panic(4) step.prems(1)] appendValue_filterCalls [OF panic(5)]
      panic(6)
    show ?thesis by simp
  next
    case (eof v vr1 v1 tr1 s2 tr2 e3 s3 tr3)
    from filterValue_filterCalls [OF eof(3) step.prems(1)] appendValue_filterCalls [OF eof(4)]
      flushAtEOF_filterCalls [OF eof(5)] eof(6)
    show ?thesis by simp
  next
    case (again v vr1 v1 tr1 s2 tr2)
    from filterValue_filterCalls [OF again(3) step.prems(1)] appendValue_filterCalls [OF again(4)]
    have "[] \<notin> set (filterCalls tr2)" by simp
    from step.IH [OF again(1-4) this again(5)] show ?thesis .
  qed
qed

text \<open>
  Claim C10.  An iteration of the loop whose value is empty as it comes from the value
  reader (between two delimiters, or after the last delimiter at the end of the stream)
  changes nothing: the run goes on with the same splitter, so the same buffer and the
  same next sequence number, and the same calls; the filter is not called.  An
  iteration whose value the filter turns into an empty or \<open>nil\<close> one changes nothing but
  the record of that one call of the filter.  And in no run is the filter ever called
  with an empty value.
\<close>

theorem empty_values_dropped:
  "(\<not> 0 <s stopped s \<and> Next vr = (([], None), vr1) \<longrightarrow> loop s vr tr = loop s vr1 tr)
   \<and> (\<not> 0 <s stopped s \<and> Next vr = ((v, None), vr1) \<and> v \<noteq> []
        \<and> valueFilter s = Some f \<and> f v = [] \<longrightarrow>
          loop s vr tr = loop s vr1 (tr\<lparr>filterCalls := filterCalls tr @ [v]\<rparr>))
   \<and> (NewSplitter conf = Some s0 \<and> RunSplit s0 rd = (e, s', rd', tr') \<longrightarrow>
          [] \<notin> set (filterCalls tr'))"
proof (intro conjI impI)
  assume a: "\<not> 0 <s stopped s \<and> Next vr = (([], None), vr1)"
  have "filterValue s [] tr = ([], tr)"
    by (simp add: filterValue_def split: option.splits)
  moreover have "appendValue s (GetScanByteNum vr1) [] tr = (None, s, tr)"
    by (simp add: appendValue_def)
  ultimately show "loop s vr tr = loop s vr1 tr"
    using a loop_step [of s vr "[]" vr1 tr "[]" tr None s tr] by simp
next
  assume a: "\<not> 0 <s stopped s \<and> Next vr = ((v, None), vr1) \<and> v \<noteq> []
        \<and> valueFilter s = Some f \<and> f v = []"
  let ?tr1 = "tr\<lparr>filterCalls := filterCalls tr @ [v]\<rparr>"
  from a have "filterValue s v tr = ([], ?tr1)"
    by (simp add: filterValue_def)
  moreover have "appendValue s (GetScanByteNum vr1) [] ?tr1 = (None, s, ?tr1)"
    by (simp add: appendValue_def)
  ultimately show "loop s vr tr = loop s vr1 ?tr1"
    using a loop_step [of s vr v vr1 tr "[]" ?tr1 None s ?tr1] by simp
next
  assume a: "NewSplitter conf = Some s0 \<and> RunSplit s0 rd = (e, s', rd', tr')"
  then consider (none) "filterCalls tr' = []"
    | (run) s1 vr vr2 where "loop s1 vr \<lparr>handlerCalls = [], filterCalls = []\<rparr> = (e, s', vr2, tr')"
    by (auto simp: RunSplit_def Let_def split: if_splits option.splits prod.splits)
  then show "[] \<notin> set (filterCalls tr')"
  proof cases
    case none
    then show ?thesis by simp
  next
    case run
    from loop_filterCalls [OF _ run] show ?thesis by simp
  qed
qed

lemma empty_first_Next: "Next empty_first = (([], None), empty_first_read)"
  by (simp add: empty_first_def empty_first_read_def stream_of_def Next_def scan.simps
        ReadByte_def numeral_3_eq_3 numeral_2_eq_2 eval_nat_numeral)

lemma banana_first_Next: "Next banana_first = ((''banana'', None), banana_first_read)"
  by (simp add: banana_first_def banana_first_read_def stream_of_def Next_def scan.simps
        ReadByte_def eval_nat_numeral)

lemma gappy_values:
  "split_values '','' ''apple,,banana,pear,'' = [''apple'', [], ''banana'', ''pear'', []]"
  by (simp add: split_values_def suffix_Cons)

lemma gappy_run:
  "RunSplit fruit_start gappy_stream =
     (None,
      fruit_start\<lparr>chunkBuffer := [], chunkSn := 1, nextValueSn := 2, started := 1\<rparr>,
      gappy_stream\<lparr>pending := [], reads := 20\<rparr>,
      \<lparr>handlerCalls = [\<lparr>ChunkSn = 0, StartValueSn = 0, EndValueSn = 1,
                        ChunkData = ''apple,pear'', ScanByteNum = 19\<rparr>],
       filterCalls = [''apple'', ''banana'', ''pear'']\<rparr>)"
proof -
  have "fits (nat (s_valueMaxScanSizeLimit fruit_start)) (Delim fruit_conf)
          (split_values (Delim fruit_conf) (pending gappy_stream))"
    by (simp add: fruit_conf_def gappy_stream_def stream_of_def gappy_values fruit_start_def
          example_splitter_def)
  from RunSplit_feed [OF NewSplitter_fruit _ _ this, of fruit_start 0] show ?thesis
    by (simp add: fruit_conf_def gappy_stream_def stream_of_def gappy_values fruit_start_def
          example_splitter_def no_calls_def filterValue_def appendValue_def flushAtEOF_def
          flushChunk_def drop_banana_def Let_def)
qed

theorem empty_values_dropped_witness:
  "\<not> 0 <s stopped fruit_start
   \<and> Next empty_first = (([], None), empty_first_read)
   \<and> loop fruit_start empty_first no_calls = loop fruit_start empty_first_read no_calls
   \<and> Next banana_first = ((''banana'', None), banana_first_read)
   \<and> valueFilter fruit_start = Some drop_banana \<and> drop_banana ''banana'' = []
   \<and> loop fruit_start banana_first no_calls =
       loop fruit_start banana_first_read (no_calls\<lparr>filterCalls := [''banana'']\<rparr>)
   \<and> NewSplitter fruit_conf = Some fruit_start
   \<and> split_values (Delim fruit_conf) (pending gappy_stream)
       = [''apple'', [], ''banana'', ''pear'', []]
   \<and> RunSplit fruit_start gappy_stream =
       (None,
        fruit_start\<lparr>chunkBuffer := [], chunkSn := 1, nextValueSn := 2, started := 1\<rparr>,
        gappy_stream\<lparr>pending := [], reads := 20\<rparr>,
        \<lparr>handlerCalls = [\<lparr>ChunkSn = 0, StartValueSn = 0, EndValueSn = 1,
                          ChunkData = ''apple,pear'', ScanByteNum = 19\<rparr>],
         filterCalls = [''apple'', ''banana'', ''pear'']\<rparr>)
   \<and> [] \<notin> set [''apple'', ''banana'', ''pear'']"
proof -
  have a: "\<not> 0 <s stopped fruit_start" "valueFilter fruit_start = Some drop_banana"
    "drop_banana ''banana'' = []"
    by (simp_all add: fruit_start_def example_splitter_def drop_banana_def)
  have v: "split_values (Delim fruit_conf) (pending gappy_stream)
       = [''apple'', [], ''banana'', ''pear'', []]"
    by (simp add: fruit_conf_def gappy_stream_def stream_of_def gappy_values)
  have t1: "loop fruit_start empty_first no_calls = loop fruit_start empty_first_read no_calls"
    using empty_values_dropped [of fruit_start empty_first empty_first_read no_calls]
      a(1) empty_first_Next by simp
  have t2: "loop fruit_start banana_first no_calls =
       loop fruit_start banana_first_read (no_calls\<lparr>filterCalls := [''banana'']\<rparr>)"
    using empty_values_dropped [of fruit_start banana_first banana_first_read no_calls
      "''banana''" drop_banana] a banana_first_Next
    by (simp add: no_calls_def)
  have t3: "[] \<notin> set [''apple'', ''banana'', ''pear'']"
    using empty_values_dropped [of _ _ _ _ _ _ fruit_conf fruit_start gappy_stream]
      NewSplitter_fruit gappy_run
    by simp
  from a v t1 t2 t3 empty_first_Next banana_first_Next NewSplitter_fruit gappy_run
  show ?thesis by simp
qed

end
